theory Spec2Isabelle
  imports Main "HOL-Library.Signed_Division"
begin

section \<open>The leaf page of the B+ tree index (\<^verbatim>\<open>b_plus_tree_leaf_page.cpp\<close>)\<close>

subsection \<open>Data model\<close>

text \<open>
  A leaf page is a header followed by the pair region \<^verbatim>\<open>data_\<close>. The source addresses the
  region through \<^verbatim>\<open>pairs_off + index * pair_size\<close>: slot \<open>index\<close> holds the \<^verbatim>\<open>key_size\<close> bytes
  of a key followed by one \<^verbatim>\<open>RowId\<close>. The model keeps that view: the field \<open>data'\<close> maps a
  slot index to the key and the value stored there. Keys (\<open>'k\<close>) and row ids (\<open>'v\<close>) are the
  typed contents of those bytes; a \<^verbatim>\<open>GenericKey *\<close> argument is the key it points to.

  The class declaration is outside this file, so the header fields are those of the spec's
  data model, under the names the source gives its members (\<^verbatim>\<open>next_page_id_\<close>, \<^verbatim>\<open>data_\<close>): a
  name cannot end in an underscore here, and the field names end in a prime instead.

  Indices and sizes are C++ \<^verbatim>\<open>int\<close>s and are modelled by \<open>int\<close>: with \<open>0 \<le> size\<close> and the
  capacity preconditions of the operations (\<open>size < max_size\<close> before a pair is added, the
  two sizes together within \<open>max_size\<close> before a merge) no operation below leaves the range
  of a 32-bit \<^verbatim>\<open>int\<close>. Page ids are only stored and copied, never computed with.

  The slot array is unbounded in the model: the byte budget of the physical page is not
  visible in this file. Slots at or beyond \<open>size\<close> hold stale or uninitialised contents,
  exactly as the bytes behind the live pairs do in the source. The slot view of a bulk copy
  between two pages is the byte copy of the source only when both pages have the same
  \<^verbatim>\<open>key_size\<close>.
\<close>

datatype IndexPageType = LEAF_PAGE | INTERNAL_PAGE

type_synonym page_id_t = int

record ('k, 'v) leaf_page =
  page_type' :: IndexPageType
  key_size' :: int
  size' :: int
  max_size' :: int
  parent_page_id' :: page_id_t
  page_id' :: page_id_t
  next_page_id' :: page_id_t
  data' :: "int \<Rightarrow> 'k \<times> 'v"

text \<open>
  Modelled from the spec: the accessors of the base class (\<^verbatim>\<open>SetPageType\<close>, \<^verbatim>\<open>GetSize\<close>,
  \<^verbatim>\<open>SetSize\<close>, \<^verbatim>\<open>IncreaseSize\<close>, \<^verbatim>\<open>SetPageId\<close>, \<^verbatim>\<open>SetParentPageId\<close>, \<^verbatim>\<open>GetKeySize\<close>, \<^verbatim>\<open>SetKeySize\<close>,
  \<^verbatim>\<open>SetMaxSize\<close>) are defined outside this file. Each one reads or writes the header field
  of the data model that its name says; \<^verbatim>\<open>IncreaseSize\<close> adds its argument to \<open>size\<close>.
\<close>

definition SetPageType :: "('k, 'v) leaf_page \<Rightarrow> IndexPageType \<Rightarrow> ('k, 'v) leaf_page" where
  "SetPageType p t = p\<lparr>page_type' := t\<rparr>"

definition GetSize :: "('k, 'v) leaf_page \<Rightarrow> int" where
  "GetSize p = size' p"

definition SetSize :: "('k, 'v) leaf_page \<Rightarrow> int \<Rightarrow> ('k, 'v) leaf_page" where
  "SetSize p n = p\<lparr>size' := n\<rparr>"

definition IncreaseSize :: "('k, 'v) leaf_page \<Rightarrow> int \<Rightarrow> ('k, 'v) leaf_page" where
  "IncreaseSize p amount = p\<lparr>size' := size' p + amount\<rparr>"

definition SetPageId :: "('k, 'v) leaf_page \<Rightarrow> page_id_t \<Rightarrow> ('k, 'v) leaf_page" where
  "SetPageId p i = p\<lparr>page_id' := i\<rparr>"

definition SetParentPageId :: "('k, 'v) leaf_page \<Rightarrow> page_id_t \<Rightarrow> ('k, 'v) leaf_page" where
  "SetParentPageId p i = p\<lparr>parent_page_id' := i\<rparr>"

definition GetKeySize :: "('k, 'v) leaf_page \<Rightarrow> int" where
  "GetKeySize p = key_size' p"

definition SetKeySize :: "('k, 'v) leaf_page \<Rightarrow> int \<Rightarrow> ('k, 'v) leaf_page" where
  "SetKeySize p n = p\<lparr>key_size' := n\<rparr>"

definition SetMaxSize :: "('k, 'v) leaf_page \<Rightarrow> int \<Rightarrow> ('k, 'v) leaf_page" where
  "SetMaxSize p n = p\<lparr>max_size' := n\<rparr>"

subsection \<open>Helper methods\<close>

definition GetNextPageId :: "('k, 'v) leaf_page \<Rightarrow> page_id_t" where
  "GetNextPageId p = next_page_id' p"

definition SetNextPageId :: "('k, 'v) leaf_page \<Rightarrow> page_id_t \<Rightarrow> ('k, 'v) leaf_page" where
  "SetNextPageId p next_page_id = p\<lparr>next_page_id' := next_page_id\<rparr>"

text \<open>
  \<^verbatim>\<open>Init\<close> writes the header of a page whose memory it is handed (\<open>p\<close>); it does not touch
  the pair region. The constant \<^verbatim>\<open>INVALID_PAGE_ID\<close> comes from a header outside this file
  and is the first parameter.
\<close>

definition Init ::
  "page_id_t \<Rightarrow> ('k, 'v) leaf_page \<Rightarrow> page_id_t \<Rightarrow> page_id_t \<Rightarrow> int \<Rightarrow> int \<Rightarrow> ('k, 'v) leaf_page"
where
  "Init INVALID_PAGE_ID p page_id parent_id key_size max_size =
     (let p1 = SetPageType p LEAF_PAGE;
          p2 = SetSize p1 0;
          p3 = SetPageId p2 page_id;
          p4 = SetParentPageId p3 parent_id;
          p5 = SetKeySize p4 key_size;
          p6 = SetMaxSize p5 max_size
      in SetNextPageId p6 INVALID_PAGE_ID)"

definition KeyAt :: "('k, 'v) leaf_page \<Rightarrow> int \<Rightarrow> 'k" where
  "KeyAt p index = fst (data' p index)"

definition SetKeyAt :: "('k, 'v) leaf_page \<Rightarrow> int \<Rightarrow> 'k \<Rightarrow> ('k, 'v) leaf_page" where
  "SetKeyAt p index key = p\<lparr>data' := (data' p)(index := (key, snd (data' p index)))\<rparr>"

definition ValueAt :: "('k, 'v) leaf_page \<Rightarrow> int \<Rightarrow> 'v" where
  "ValueAt p index = snd (data' p index)"

definition SetValueAt :: "('k, 'v) leaf_page \<Rightarrow> int \<Rightarrow> 'v \<Rightarrow> ('k, 'v) leaf_page" where
  "SetValueAt p index value = p\<lparr>data' := (data' p)(index := (fst (data' p index), value))\<rparr>"

text \<open>
  \<^verbatim>\<open>PairPtrAt\<close> returns a pointer into the pair region. A pointer is modelled by what is read
  through it: the slots from \<open>index\<close> on, at the time of the call.
\<close>

definition PairPtrAt :: "('k, 'v) leaf_page \<Rightarrow> int \<Rightarrow> (int \<Rightarrow> 'k \<times> 'v)" where
  "PairPtrAt p index = (\<lambda>j. data' p (index + j))"

definition GetItem :: "('k, 'v) leaf_page \<Rightarrow> int \<Rightarrow> 'k \<times> 'v" where
  "GetItem p index = (KeyAt p index, ValueAt p index)"

text \<open>
  \<^verbatim>\<open>KeyIndex\<close>: the binary search. \<open>KM\<close> is \<^verbatim>\<open>KM.CompareKeys\<close>, the comparator of the key
  manager, defined outside this file: negative, zero or positive as its first argument is
  below, equal to or above the second. The source's \<^verbatim>\<open>/\<close> on \<^verbatim>\<open>int\<close> truncates towards zero,
  which is \<open>sdiv\<close>.
\<close>

function KeyIndex_loop ::
  "('k \<Rightarrow> 'k \<Rightarrow> int) \<Rightarrow> ('k, 'v) leaf_page \<Rightarrow> 'k \<Rightarrow> int \<Rightarrow> int \<Rightarrow> int"
where
  "KeyIndex_loop KM p key left right =
     (if left \<le> right then
        (let mid = left + (right - left) sdiv 2 in
         if KM key (KeyAt p mid) \<le> 0
         then KeyIndex_loop KM p key left (mid - 1)
         else KeyIndex_loop KM p key (mid + 1) right)
      else left)"
  by pat_completeness auto
termination
  by (relation "measure (\<lambda>(KM, p, key, left, right). nat (right - left + 1))")
     (auto simp: signed_divide_int_def sgn_if)

definition KeyIndex :: "('k, 'v) leaf_page \<Rightarrow> 'k \<Rightarrow> ('k \<Rightarrow> 'k \<Rightarrow> int) \<Rightarrow> int" where
  "KeyIndex p key KM = KeyIndex_loop KM p key 0 (GetSize p - 1)"

subsection \<open>Insertion\<close>

text \<open>
  The loop \<^verbatim>\<open>for (int i = ...; i > index; --i) { SetKeyAt(i, KeyAt(i - 1)); SetValueAt(i, ValueAt(i - 1)); }\<close>
  of \<^verbatim>\<open>Insert\<close> (started at \<^verbatim>\<open>GetSize()\<close>) and of \<^verbatim>\<open>CopyFirstFrom\<close> (started at \<^verbatim>\<open>GetSize()\<close>, with
  \<open>index = 0\<close>).
\<close>

function ShiftRight_loop :: "('k, 'v) leaf_page \<Rightarrow> int \<Rightarrow> int \<Rightarrow> ('k, 'v) leaf_page" where
  "ShiftRight_loop p index i =
     (if i > index then
        (let p1 = SetKeyAt p i (KeyAt p (i - 1));
             p2 = SetValueAt p1 i (ValueAt p1 (i - 1))
         in ShiftRight_loop p2 index (i - 1))
      else p)"
  by pat_completeness auto
termination
  by (relation "measure (\<lambda>(p, index, i). nat (i - index))") auto

definition Insert ::
  "('k, 'v) leaf_page \<Rightarrow> 'k \<Rightarrow> 'v \<Rightarrow> ('k \<Rightarrow> 'k \<Rightarrow> int) \<Rightarrow> ('k, 'v) leaf_page \<times> int"
where
  "Insert p key value KM =
     (let index = KeyIndex p key KM;
          p1 = ShiftRight_loop p index (GetSize p);
          p2 = SetKeyAt p1 index key;
          p3 = SetValueAt p2 index value;
          p4 = IncreaseSize p3 1
      in (p4, GetSize p4))"

subsection \<open>Split\<close>

text \<open>
  \<^verbatim>\<open>memcpy(PairPtrAt(GetSize()), src, size * pair_size)\<close> copies \<open>n\<close> whole slots (the
  parameter \<^verbatim>\<open>size\<close>) from what \<open>src\<close> points to, to the slots from \<^verbatim>\<open>GetSize()\<close> on. The model
  is the source's copy when \<open>0 \<le> n\<close>, the size of the page is not negative and the page has
  room for \<open>n\<close> more pairs. Outside of that the source has no defined result (a negative
  count reaches \<^verbatim>\<open>memcpy\<close> as a huge unsigned one, a negative size puts the destination
  before \<^verbatim>\<open>data_\<close>, in the header), while the model copies nothing or writes slots that no
  header field shares; every property below that goes through \<^verbatim>\<open>CopyNFrom\<close> assumes or
  establishes the three conditions.
\<close>

definition CopyNFrom :: "('k, 'v) leaf_page \<Rightarrow> (int \<Rightarrow> 'k \<times> 'v) \<Rightarrow> int \<Rightarrow> ('k, 'v) leaf_page" where
  "CopyNFrom p src n =
     (let dest = GetSize p;
          p1 = p\<lparr>data' := (\<lambda>a. if dest \<le> a \<and> a < dest + n then src (a - dest) else data' p a)\<rparr>
      in IncreaseSize p1 n)"

text \<open>
  Operations on two pages return the page they are called on first and the recipient
  second. The recipient is another page than \<open>this\<close>: a \<^verbatim>\<open>memcpy\<close> within one page would
  overlap.
\<close>

definition MoveHalfTo ::
  "('k, 'v) leaf_page \<Rightarrow> ('k, 'v) leaf_page \<Rightarrow> ('k, 'v) leaf_page \<times> ('k, 'v) leaf_page"
where
  "MoveHalfTo this recipient =
     (let total = GetSize this;
          move_count = total sdiv 2;
          recipient1 = CopyNFrom recipient (PairPtrAt this (total - move_count)) move_count
      in (SetSize this (total - move_count), recipient1))"

subsection \<open>Lookup\<close>

text \<open>
  \<^verbatim>\<open>Lookup\<close> is not a \<^verbatim>\<open>const\<close> method, so the model returns the page as well; \<open>value\<close> is the
  reference parameter, returned as it was when the key is not found.
\<close>

definition Lookup ::
  "('k, 'v) leaf_page \<Rightarrow> 'k \<Rightarrow> 'v \<Rightarrow> ('k \<Rightarrow> 'k \<Rightarrow> int) \<Rightarrow> ('k, 'v) leaf_page \<times> bool \<times> 'v"
where
  "Lookup p key value KM =
     (let index = KeyIndex p key KM in
      if index < GetSize p \<and> KM key (KeyAt p index) = 0
      then (p, True, ValueAt p index)
      else (p, False, value))"

subsection \<open>Remove\<close>

text \<open>
  The loop \<^verbatim>\<open>for (int i = ...; i < GetSize() - 1; ++i) { SetKeyAt(i, KeyAt(i + 1)); SetValueAt(i, ValueAt(i + 1)); }\<close>
  of \<^verbatim>\<open>RemoveAndDeleteRecord\<close> (started at \<open>index\<close>) and of \<^verbatim>\<open>MoveFirstToEndOf\<close> (started at 0).
\<close>

function ShiftLeft_loop :: "('k, 'v) leaf_page \<Rightarrow> int \<Rightarrow> ('k, 'v) leaf_page" where
  "ShiftLeft_loop p i =
     (if i < GetSize p - 1 then
        (let p1 = SetKeyAt p i (KeyAt p (i + 1));
             p2 = SetValueAt p1 i (ValueAt p1 (i + 1))
         in ShiftLeft_loop p2 (i + 1))
      else p)"
  by pat_completeness auto
termination
  by (relation "measure (\<lambda>(p, i). nat (GetSize p - 1 - i))")
     (auto simp: GetSize_def SetKeyAt_def SetValueAt_def)

definition RemoveAndDeleteRecord ::
  "('k, 'v) leaf_page \<Rightarrow> 'k \<Rightarrow> ('k \<Rightarrow> 'k \<Rightarrow> int) \<Rightarrow> ('k, 'v) leaf_page \<times> int"
where
  "RemoveAndDeleteRecord p key KM =
     (let index = KeyIndex p key KM in
      if index < GetSize p \<and> KM key (KeyAt p index) = 0
      then (let p1 = ShiftLeft_loop p index;
                p2 = IncreaseSize p1 (- 1)
            in (p2, GetSize p2))
      else (p, GetSize p))"

subsection \<open>Merge\<close>

definition MoveAllTo ::
  "('k, 'v) leaf_page \<Rightarrow> ('k, 'v) leaf_page \<Rightarrow> ('k, 'v) leaf_page \<times> ('k, 'v) leaf_page"
where
  "MoveAllTo this recipient =
     (let recipient1 = CopyNFrom recipient (PairPtrAt this 0) (GetSize this);
          recipient2 = SetNextPageId recipient1 (GetNextPageId this)
      in (SetSize this 0, recipient2))"

subsection \<open>Redistribute\<close>

definition CopyLastFrom :: "('k, 'v) leaf_page \<Rightarrow> 'k \<Rightarrow> 'v \<Rightarrow> ('k, 'v) leaf_page" where
  "CopyLastFrom p key value =
     (let p1 = SetKeyAt p (GetSize p) key;
          p2 = SetValueAt p1 (GetSize p1) value
      in IncreaseSize p2 1)"

definition MoveFirstToEndOf ::
  "('k, 'v) leaf_page \<Rightarrow> ('k, 'v) leaf_page \<Rightarrow> ('k, 'v) leaf_page \<times> ('k, 'v) leaf_page"
where
  "MoveFirstToEndOf this recipient =
     (let recipient1 = CopyLastFrom recipient (KeyAt this 0) (ValueAt this 0);
          this1 = ShiftLeft_loop this 0
      in (IncreaseSize this1 (- 1), recipient1))"

definition CopyFirstFrom :: "('k, 'v) leaf_page \<Rightarrow> 'k \<Rightarrow> 'v \<Rightarrow> ('k, 'v) leaf_page" where
  "CopyFirstFrom p key value =
     (let p1 = ShiftRight_loop p 0 (GetSize p);
          p2 = SetKeyAt p1 0 key;
          p3 = SetValueAt p2 0 value
      in IncreaseSize p3 1)"

definition MoveLastToFrontOf ::
  "('k, 'v) leaf_page \<Rightarrow> ('k, 'v) leaf_page \<Rightarrow> ('k, 'v) leaf_page \<times> ('k, 'v) leaf_page"
where
  "MoveLastToFrontOf this recipient =
     (let recipient1 = CopyFirstFrom recipient (KeyAt this (GetSize this - 1))
                         (ValueAt this (GetSize this - 1))
      in (IncreaseSize this (- 1), recipient1))"

subsection \<open>What the claims observe\<close>

text \<open>The live pairs of a page: the slots \<open>0 .. size - 1\<close>, read with \<^verbatim>\<open>GetItem\<close>.\<close>

definition pairs :: "('k, 'v) leaf_page \<Rightarrow> ('k \<times> 'v) list" where
  "pairs p = map (\<lambda>i. GetItem p (int i)) [0 ..< nat (GetSize p)]"

definition keys :: "('k, 'v) leaf_page \<Rightarrow> 'k list" where
  "keys p = map fst (pairs p)"

text \<open>
  What the spec requires of the comparator: it is a total order on keys. The model asks
  for the consequences that the operations rely on: the sign of the result flips when the
  arguments are swapped, and "not above" is transitive. Two keys are equal for the page
  when the comparator returns 0 on them.
\<close>

definition key_order :: "('k \<Rightarrow> 'k \<Rightarrow> int) \<Rightarrow> bool" where
  "key_order KM \<longleftrightarrow>
     (\<forall>a b. (KM a b < 0) = (0 < KM b a)) \<and>
     (\<forall>a b c. KM a b \<le> 0 \<longrightarrow> KM b c \<le> 0 \<longrightarrow> KM a c \<le> 0)"

definition ascending :: "('k \<Rightarrow> 'k \<Rightarrow> int) \<Rightarrow> 'k list \<Rightarrow> bool" where
  "ascending KM ks = sorted_wrt (\<lambda>a b. KM a b \<le> 0) ks"

definition strictly_ascending :: "('k \<Rightarrow> 'k \<Rightarrow> int) \<Rightarrow> 'k list \<Rightarrow> bool" where
  "strictly_ascending KM ks = sorted_wrt (\<lambda>a b. KM a b < 0) ks"

definition key_present :: "('k \<Rightarrow> 'k \<Rightarrow> int) \<Rightarrow> ('k, 'v) leaf_page \<Rightarrow> 'k \<Rightarrow> bool" where
  "key_present KM p key = list_ex (\<lambda>k. KM key k = 0) (keys p)"

text \<open>No two keys at different positions of the list compare equal.\<close>

definition no_duplicate_keys :: "('k \<Rightarrow> 'k \<Rightarrow> int) \<Rightarrow> 'k list \<Rightarrow> bool" where
  "no_duplicate_keys KM ks = sorted_wrt (\<lambda>a b. KM a b \<noteq> 0 \<and> KM b a \<noteq> 0) ks"

subsection \<open>Sequences of operations\<close>

datatype ('k, 'v) leaf_op = OpInsert 'k 'v | OpRemove 'k

fun apply_op :: "('k \<Rightarrow> 'k \<Rightarrow> int) \<Rightarrow> ('k, 'v) leaf_page \<Rightarrow> ('k, 'v) leaf_op \<Rightarrow> ('k, 'v) leaf_page" where
  "apply_op KM p (OpInsert key value) = fst (Insert p key value KM)"
| "apply_op KM p (OpRemove key) = fst (RemoveAndDeleteRecord p key KM)"

text \<open>The pages observed while a sequence of calls runs: before the first call and after each call.\<close>

fun observed :: "('k \<Rightarrow> 'k \<Rightarrow> int) \<Rightarrow> ('k, 'v) leaf_page \<Rightarrow> ('k, 'v) leaf_op list \<Rightarrow> ('k, 'v) leaf_page list" where
  "observed KM p [] = [p]"
| "observed KM p (x # xs) = p # observed KM (apply_op KM p x) xs"

text \<open>Every \<^verbatim>\<open>Insert\<close> of the sequence is called while \<open>size < max_size\<close>.\<close>

fun within_capacity :: "('k \<Rightarrow> 'k \<Rightarrow> int) \<Rightarrow> ('k, 'v) leaf_page \<Rightarrow> ('k, 'v) leaf_op list \<Rightarrow> bool" where
  "within_capacity KM p [] = True"
| "within_capacity KM p (OpInsert key value # xs) =
     (GetSize p < max_size' p \<and> within_capacity KM (apply_op KM p (OpInsert key value)) xs)"
| "within_capacity KM p (OpRemove key # xs) = within_capacity KM (apply_op KM p (OpRemove key)) xs"

text \<open>Every \<^verbatim>\<open>Insert\<close> of the sequence is called with a key that the page does not hold then.\<close>

fun absent_keys_only :: "('k \<Rightarrow> 'k \<Rightarrow> int) \<Rightarrow> ('k, 'v) leaf_page \<Rightarrow> ('k, 'v) leaf_op list \<Rightarrow> bool" where
  "absent_keys_only KM p [] = True"
| "absent_keys_only KM p (OpInsert key value # xs) =
     (\<not> key_present KM p key \<and> absent_keys_only KM (apply_op KM p (OpInsert key value)) xs)"
| "absent_keys_only KM p (OpRemove key # xs) = absent_keys_only KM (apply_op KM p (OpRemove key)) xs"

subsection \<open>Sorted insertion as the spec words it\<close>

text \<open>
  The spec's \<^verbatim>\<open>Insert\<close> on the sequence of pairs: the new pair goes to the first position
  whose key is not below the new key, and the pairs from there on move one place right.
\<close>

fun spec_sorted_insert :: "('k \<Rightarrow> 'k \<Rightarrow> int) \<Rightarrow> 'k \<Rightarrow> 'v \<Rightarrow> ('k \<times> 'v) list \<Rightarrow> ('k \<times> 'v) list" where
  "spec_sorted_insert KM key value [] = [(key, value)]"
| "spec_sorted_insert KM key value (x # xs) =
     (if KM key (fst x) \<le> 0 then (key, value) # x # xs
      else x # spec_sorted_insert KM key value xs)"

subsection \<open>Concrete pages\<close>

text \<open>
  A comparator for keys that are one integer column, a page of zeroed memory, and the
  pages of the spec's scenarios (\<open>key_size = 4\<close>, \<open>max_size = 4\<close>, with \<open>- 1\<close> for
  \<^verbatim>\<open>INVALID_PAGE_ID\<close>), built with \<^verbatim>\<open>Init\<close> and \<^verbatim>\<open>Insert\<close>.
\<close>

definition CompareKeys_int :: "int \<Rightarrow> int \<Rightarrow> int" where
  "CompareKeys_int a b = (if a < b then - 1 else if b < a then 1 else 0)"

definition zero_page :: "(int, int) leaf_page" where
  "zero_page = \<lparr>page_type' = INTERNAL_PAGE, key_size' = 0, size' = 0, max_size' = 0,
     parent_page_id' = 0, page_id' = 0, next_page_id' = 0, data' = (\<lambda>a. (0, 0))\<rparr>"

definition fresh_leaf :: "page_id_t \<Rightarrow> (int, int) leaf_page" where
  "fresh_leaf page_id = Init (- 1) zero_page page_id 0 4 4"

definition leaf_10_20_30 :: "(int, int) leaf_page" where
  "leaf_10_20_30 =
     fst (Insert (fst (Insert (fst (Insert (fresh_leaf 1) 30 300 CompareKeys_int))
                         10 100 CompareKeys_int))
            20 200 CompareKeys_int)"

definition leaf_10_20_30_40 :: "(int, int) leaf_page" where
  "leaf_10_20_30_40 = fst (Insert leaf_10_20_30 40 400 CompareKeys_int)"

definition leaf_10_20 :: "(int, int) leaf_page" where
  "leaf_10_20 =
     fst (Insert (fst (Insert (fresh_leaf 1) 10 100 CompareKeys_int)) 20 200 CompareKeys_int)"

definition leaf_30_40 :: "(int, int) leaf_page" where
  "leaf_30_40 =
     SetNextPageId
       (fst (Insert (fst (Insert (fresh_leaf 2) 30 300 CompareKeys_int)) 40 400 CompareKeys_int))
       7"

definition leaf_50 :: "(int, int) leaf_page" where
  "leaf_50 = fst (Insert (fresh_leaf 3) 50 500 CompareKeys_int)"

section \<open>Properties\<close>

declare KeyIndex_loop.simps [simp del] ShiftRight_loop.simps [simp del] ShiftLeft_loop.simps [simp del]

subsection \<open>The two shifting loops\<close>

lemma sdiv_2_nonneg: "0 \<le> (a::int) \<Longrightarrow> a sdiv 2 = a div 2"
  by (simp add: signed_divide_int_def sgn_if)

lemma ShiftRight_loop_eq:
  "ShiftRight_loop p index i =
     p\<lparr>data' := (\<lambda>a. if index < a \<and> a \<le> i then data' p (a - 1) else data' p a)\<rparr>"
proof (induction p index i rule: ShiftRight_loop.induct)
  case (1 p index i)
  show ?case
  proof (cases "index < i")
    case True
    let ?p2 = "SetValueAt (SetKeyAt p i (KeyAt p (i - 1))) i (ValueAt (SetKeyAt p i (KeyAt p (i - 1))) (i - 1))"
    have "ShiftRight_loop p index i = ShiftRight_loop ?p2 index (i - 1)"
      using True by (subst ShiftRight_loop.simps) (simp add: Let_def)
    also have "\<dots> = ?p2\<lparr>data' := (\<lambda>a. if index < a \<and> a \<le> i - 1 then data' ?p2 (a - 1) else data' ?p2 a)\<rparr>"
      using "1.IH" [OF True refl refl] .
    also have "\<dots> = p\<lparr>data' := (\<lambda>a. if index < a \<and> a \<le> i then data' p (a - 1) else data' p a)\<rparr>"
    proof -
      have "(\<lambda>a. if index < a \<and> a \<le> i - 1 then data' ?p2 (a - 1) else data' ?p2 a) =
            (\<lambda>a. if index < a \<and> a \<le> i then data' p (a - 1) else data' p a)"
        using True by (auto simp: SetValueAt_def SetKeyAt_def KeyAt_def ValueAt_def fun_eq_iff)
      then show ?thesis by (simp add: SetValueAt_def SetKeyAt_def)
    qed
    finally show ?thesis .
  next
    case False
    then have "(\<lambda>a. if index < a \<and> a \<le> i then data' p (a - 1) else data' p a) = data' p"
      by (auto simp: fun_eq_iff)
    with False show ?thesis
      by (subst ShiftRight_loop.simps) simp
  qed
qed

lemma ShiftLeft_loop_eq:
  "ShiftLeft_loop p i =
     p\<lparr>data' := (\<lambda>a. if i \<le> a \<and> a < GetSize p - 1 then data' p (a + 1) else data' p a)\<rparr>"
proof (induction p i rule: ShiftLeft_loop.induct)
  case (1 p i)
  show ?case
  proof (cases "i < GetSize p - 1")
    case True
    let ?p2 = "SetValueAt (SetKeyAt p i (KeyAt p (i + 1))) i (ValueAt (SetKeyAt p i (KeyAt p (i + 1))) (i + 1))"
    have sz: "GetSize ?p2 = GetSize p"
      by (simp add: GetSize_def SetValueAt_def SetKeyAt_def)
    have "ShiftLeft_loop p i = ShiftLeft_loop ?p2 (i + 1)"
      using True by (subst ShiftLeft_loop.simps) (simp add: Let_def)
    also have "\<dots> = ?p2\<lparr>data' := (\<lambda>a. if i + 1 \<le> a \<and> a < GetSize ?p2 - 1 then data' ?p2 (a + 1) else data' ?p2 a)\<rparr>"
      using "1.IH" [OF True refl refl] .
    also have "\<dots> = p\<lparr>data' := (\<lambda>a. if i \<le> a \<and> a < GetSize p - 1 then data' p (a + 1) else data' p a)\<rparr>"
    proof -
      have "(\<lambda>a. if i + 1 \<le> a \<and> a < GetSize ?p2 - 1 then data' ?p2 (a + 1) else data' ?p2 a) =
            (\<lambda>a. if i \<le> a \<and> a < GetSize p - 1 then data' p (a + 1) else data' p a)"
        unfolding sz using True
        by (auto simp: SetValueAt_def SetKeyAt_def KeyAt_def ValueAt_def fun_eq_iff)
      then show ?thesis by (simp add: SetValueAt_def SetKeyAt_def)
    qed
    finally show ?thesis .
  next
    case False
    then have "(\<lambda>a. if i \<le> a \<and> a < GetSize p - 1 then data' p (a + 1) else data' p a) = data' p"
      by (auto simp: fun_eq_iff)
    with False show ?thesis
      by (subst ShiftLeft_loop.simps) simp
  qed
qed

subsection \<open>The live pairs\<close>

lemma length_pairs [simp]: "length (pairs p) = nat (GetSize p)"
  by (simp add: pairs_def)

lemma length_keys [simp]: "length (keys p) = nat (GetSize p)"
  by (simp add: keys_def)

lemma pairs_nth: "i < nat (GetSize p) \<Longrightarrow> pairs p ! i = data' p (int i)"
  by (simp add: pairs_def GetItem_def KeyAt_def ValueAt_def)

lemma keys_nth: "i < nat (GetSize p) \<Longrightarrow> keys p ! i = KeyAt p (int i)"
  by (simp add: keys_def pairs_nth KeyAt_def)

lemma pairs_alt: "pairs p = map (\<lambda>i. data' p (int i)) [0 ..< nat (size' p)]"
  by (simp add: pairs_def GetItem_def KeyAt_def ValueAt_def GetSize_def)

lemma keys_nonempty: "0 < GetSize p \<Longrightarrow> keys p \<noteq> []"
  by (simp add: keys_def pairs_def)

lemma pairs_first_live: "0 < GetSize p \<Longrightarrow> data' p 0 = hd (pairs p)"
  by (simp add: pairs_alt GetSize_def hd_map upt_conv_Cons)

lemma pairs_last_live: "0 < GetSize p \<Longrightarrow> data' p (size' p - 1) = last (pairs p)"
proof -
  assume a: "0 < GetSize p"
  then have ne: "pairs p \<noteq> []" by (simp add: pairs_def)
  have "last (pairs p) = pairs p ! (nat (GetSize p) - 1)"
    using ne by (simp add: last_conv_nth)
  also have "\<dots> = data' p (int (nat (GetSize p) - 1))"
    using a by (intro pairs_nth) simp
  also have "int (nat (GetSize p) - 1) = size' p - 1"
    using a by (simp add: GetSize_def)
  finally show ?thesis by simp
qed

lemma pairs_next_page_id_update [simp]: "pairs (p\<lparr>next_page_id' := x\<rparr>) = pairs p"
  by (simp add: pairs_alt)

lemma keys_sorted_wrt_iff:
  "sorted_wrt R (keys p) \<longleftrightarrow>
     (\<forall>i j. 0 \<le> i \<and> i < j \<and> j < GetSize p \<longrightarrow> R (KeyAt p i) (KeyAt p j))"
proof
  assume s: "sorted_wrt R (keys p)"
  show "\<forall>i j. 0 \<le> i \<and> i < j \<and> j < GetSize p \<longrightarrow> R (KeyAt p i) (KeyAt p j)"
  proof (intro allI impI)
    fix i j :: int
    assume h: "0 \<le> i \<and> i < j \<and> j < GetSize p"
    then have "nat i < nat j" "nat j < length (keys p)" by auto
    with s have "R (keys p ! nat i) (keys p ! nat j)"
      by (simp only: sorted_wrt_iff_nth_less)
    with h show "R (KeyAt p i) (KeyAt p j)" by (simp add: keys_nth)
  qed
next
  assume a: "\<forall>i j. 0 \<le> i \<and> i < j \<and> j < GetSize p \<longrightarrow> R (KeyAt p i) (KeyAt p j)"
  show "sorted_wrt R (keys p)"
    unfolding sorted_wrt_iff_nth_less
  proof (intro allI impI)
    fix i j :: nat
    assume h: "i < j" "j < length (keys p)"
    then have "0 \<le> int i \<and> int i < int j \<and> int j < GetSize p" by auto
    with a have "R (KeyAt p (int i)) (KeyAt p (int j))" by blast
    with h show "R (keys p ! i) (keys p ! j)" by (simp add: keys_nth)
  qed
qed

lemma pairs_truncate:
  assumes "n \<le> size' p"
  shows "pairs (p\<lparr>size' := n\<rparr>) = take (nat n) (pairs p)"
proof (rule nth_equalityI)
  show "length (pairs (p\<lparr>size' := n\<rparr>)) = length (take (nat n) (pairs p))"
    using assms by (simp add: GetSize_def)
next
  fix i assume "i < length (pairs (p\<lparr>size' := n\<rparr>))"
  then have "i < nat n" "i < nat (size' p)" using assms by (simp_all add: GetSize_def)
  then show "pairs (p\<lparr>size' := n\<rparr>) ! i = take (nat n) (pairs p) ! i"
    by (simp add: pairs_alt)
qed

lemma pairs_appended:
  assumes "0 \<le> size' r" "0 \<le> n" "0 \<le> off" "off + n \<le> size' this"
  shows "pairs (r\<lparr>data' := (\<lambda>a. if size' r \<le> a \<and> a < size' r + n
                                  then data' this (off + (a - size' r)) else data' r a),
                  size' := size' r + n\<rparr>) =
         pairs r @ take (nat n) (drop (nat off) (pairs this))"
    (is "pairs ?r' = _")
proof (rule nth_equalityI)
  show "length (pairs ?r') = length (pairs r @ take (nat n) (drop (nat off) (pairs this)))"
    using assms by (simp add: GetSize_def nat_add_distrib)
next
  fix i assume "i < length (pairs ?r')"
  then have i: "int i < size' r + n" using assms by (simp add: GetSize_def)
  show "pairs ?r' ! i = (pairs r @ take (nat n) (drop (nat off) (pairs this))) ! i"
  proof (cases "int i < size' r")
    case True
    then have "i < nat (size' r)" "i < nat (size' r + n)" using assms by linarith+
    with True show ?thesis by (simp add: pairs_alt nth_append)
  next
    case False
    define j where "j = i - nat (size' r)"
    have ge: "\<not> i < nat (size' r)" using False assms(1) by linarith
    have j: "j < nat n" "nat off + j < nat (size' this)" "nat off \<le> length (pairs this)"
      "int (nat off + j) = off + (int i - size' r)"
      using False i assms by (simp_all add: j_def GetSize_def)
    have "(pairs r @ take (nat n) (drop (nat off) (pairs this))) ! i =
          take (nat n) (drop (nat off) (pairs this)) ! j"
      using ge by (simp add: nth_append j_def GetSize_def)
    also have "\<dots> = pairs this ! (nat off + j)"
      using j(1,3) by simp
    also have "\<dots> = data' this (off + (int i - size' r))"
      using j(2,4) by (simp add: pairs_nth GetSize_def)
    finally have rhs: "(pairs r @ take (nat n) (drop (nat off) (pairs this))) ! i =
          data' this (off + (int i - size' r))" .
    have "i < nat (size' r + n)" using i by linarith
    then have "pairs ?r' ! i = data' this (off + (int i - size' r))"
      using False i by (simp add: pairs_alt)
    with rhs show ?thesis by simp
  qed
qed

lemma pairs_remove_slot:
  assumes "0 \<le> i" "i < size' p"
  shows "pairs (p\<lparr>data' := (\<lambda>a. if i \<le> a \<and> a < size' p - 1 then data' p (a + 1) else data' p a),
                  size' := size' p - 1\<rparr>) =
         take (nat i) (pairs p) @ drop (Suc (nat i)) (pairs p)"
proof (rule nth_equalityI)
  show "length (pairs (p\<lparr>data' := (\<lambda>a. if i \<le> a \<and> a < size' p - 1 then data' p (a + 1) else data' p a),
                  size' := size' p - 1\<rparr>)) =
        length (take (nat i) (pairs p) @ drop (Suc (nat i)) (pairs p))"
    using assms by (simp add: GetSize_def)
next
  fix j
  assume "j < length (pairs (p\<lparr>data' := (\<lambda>a. if i \<le> a \<and> a < size' p - 1 then data' p (a + 1) else data' p a),
                  size' := size' p - 1\<rparr>))"
  then have j: "int j < size' p - 1" using assms by (simp add: GetSize_def)
  show "pairs (p\<lparr>data' := (\<lambda>a. if i \<le> a \<and> a < size' p - 1 then data' p (a + 1) else data' p a),
                  size' := size' p - 1\<rparr>) ! j =
        (take (nat i) (pairs p) @ drop (Suc (nat i)) (pairs p)) ! j"
    using assms j
    by (auto simp: pairs_alt nth_append min_def nat_less_iff algebra_simps)
qed

lemma pairs_push_back:
  assumes "0 \<le> size' p"
  shows "pairs (p\<lparr>data' := (data' p)(size' p := x), size' := size' p + 1\<rparr>) = pairs p @ [x]"
proof (rule nth_equalityI)
  show "length (pairs (p\<lparr>data' := (data' p)(size' p := x), size' := size' p + 1\<rparr>)) =
        length (pairs p @ [x])"
    using assms by (simp add: GetSize_def nat_add_distrib)
next
  fix i assume "i < length (pairs (p\<lparr>data' := (data' p)(size' p := x), size' := size' p + 1\<rparr>))"
  then have i: "i < nat (size' p + 1)" by (simp add: GetSize_def)
  show "pairs (p\<lparr>data' := (data' p)(size' p := x), size' := size' p + 1\<rparr>) ! i = (pairs p @ [x]) ! i"
  proof (cases "i < nat (size' p)")
    case True
    then have "int i \<noteq> size' p" by linarith
    with True i show ?thesis by (simp add: pairs_alt nth_append)
  next
    case False
    with i assms have eq: "int i = size' p" and len: "i = length (pairs p)"
      by (simp_all add: GetSize_def)
    have "pairs (p\<lparr>data' := (data' p)(size' p := x), size' := size' p + 1\<rparr>) ! i = x"
      using i eq by (simp add: pairs_alt)
    moreover have "(pairs p @ [x]) ! i = x"
      unfolding len by (rule nth_append_length)
    ultimately show ?thesis by simp
  qed
qed

lemma pairs_push_front:
  assumes "0 \<le> size' p"
  shows "pairs (p\<lparr>data' := (\<lambda>a. if 0 < a \<and> a \<le> size' p then data' p (a - 1) else data' p a)
                           (0 := x),
                  size' := size' p + 1\<rparr>) = x # pairs p"
    (is "pairs ?p' = _")
proof (rule nth_equalityI)
  show "length (pairs ?p') = length (x # pairs p)"
    using assms by (simp add: GetSize_def nat_add_distrib)
next
  fix i assume "i < length (pairs ?p')"
  then have i: "i < nat (size' p + 1)" by (simp add: GetSize_def)
  show "pairs ?p' ! i = (x # pairs p) ! i"
  proof (cases i)
    case 0
    with i show ?thesis by (simp add: pairs_alt)
  next
    case (Suc j)
    with i have j: "j < nat (size' p)" "0 < int i" "int i \<le> size' p" "int i - 1 = int j"
      by linarith+
    with i Suc show ?thesis by (simp add: pairs_alt)
  qed
qed

subsection \<open>The comparator and sorted lists\<close>

lemma key_order_CompareKeys_int: "key_order CompareKeys_int"
  by (auto simp: key_order_def CompareKeys_int_def split: if_splits)

lemma key_order_trans: "key_order KM \<Longrightarrow> \<forall>a b c. KM a b \<le> 0 \<longrightarrow> KM b c \<le> 0 \<longrightarrow> KM a c \<le> 0"
  by (simp add: key_order_def)

lemma key_order_flip: "key_order KM \<Longrightarrow> (KM a b < 0) = (0 < KM b a)"
  by (simp add: key_order_def)

lemma key_order_eq_sym:
  assumes "key_order KM" "KM a b = 0"
  shows "KM b a = 0"
  using key_order_flip [OF assms(1), of a b] key_order_flip [OF assms(1), of b a] assms(2)
  by simp

lemma key_order_le_trans: "key_order KM \<Longrightarrow> KM a b \<le> 0 \<Longrightarrow> KM b c \<le> 0 \<Longrightarrow> KM a c \<le> 0"
  unfolding key_order_def by blast

lemma key_order_le_less_trans:
  assumes ko: "key_order KM" and ab: "KM a b \<le> 0" and bc: "KM b c < 0"
  shows "KM a c < 0"
proof (rule ccontr)
  assume "\<not> KM a c < 0"
  moreover have "KM a c \<le> 0" using key_order_le_trans [OF ko ab] bc by simp
  ultimately have "KM a c = 0" by simp
  then have "KM c a \<le> 0" using key_order_eq_sym [OF ko] by simp
  then have "KM c b \<le> 0" using key_order_le_trans [OF ko _ ab] by blast
  then have "\<not> 0 < KM c b" by simp
  with key_order_flip [OF ko, of b c] bc show False by simp
qed

lemma strictly_ascending_imp_ascending: "strictly_ascending KM ks \<Longrightarrow> ascending KM ks"
  unfolding strictly_ascending_def ascending_def
  by (erule sorted_wrt_mono_rel [rotated]) simp

lemma strictly_ascending_no_duplicates:
  assumes "key_order KM" "strictly_ascending KM ks"
  shows "no_duplicate_keys KM ks"
  unfolding no_duplicate_keys_def
proof (rule sorted_wrt_mono_rel [OF _ assms(2) [unfolded strictly_ascending_def]])
  fix a b assume "KM a b < 0"
  moreover from this have "0 < KM b a" using key_order_flip [OF assms(1)] by simp
  ultimately show "KM a b \<noteq> 0 \<and> KM b a \<noteq> 0" by simp
qed

lemma sorted_wrt_insert_between:
  assumes "sorted_wrt R ks" "\<forall>k \<in> set (take i ks). R k x" "\<forall>k \<in> set (drop i ks). R x k"
  shows "sorted_wrt R (take i ks @ x # drop i ks)"
proof -
  have "sorted_wrt R (take i ks) \<and> sorted_wrt R (drop i ks) \<and>
        (\<forall>a \<in> set (take i ks). \<forall>b \<in> set (drop i ks). R a b)"
    using assms(1) sorted_wrt_append [of R "take i ks" "drop i ks"] by simp
  then show ?thesis using assms(2,3) by (auto simp: sorted_wrt_append)
qed

lemma sorted_wrt_remove_nth:
  assumes "sorted_wrt R ks"
  shows "sorted_wrt R (take i ks @ drop (Suc i) ks)"
proof -
  have "sorted_wrt R (take i ks @ drop i ks)" using assms by simp
  then have "sorted_wrt R (take i ks)" "sorted_wrt R (drop i ks)"
    "\<forall>a \<in> set (take i ks). \<forall>b \<in> set (drop i ks). R a b"
    unfolding sorted_wrt_append by simp_all
  moreover have "sorted_wrt R (drop (Suc i) ks)" using assms by (rule sorted_wrt_drop)
  moreover have "set (drop (Suc i) ks) \<subseteq> set (drop i ks)"
    by (simp add: set_drop_subset_set_drop)
  ultimately show ?thesis unfolding sorted_wrt_append by blast
qed

lemma sorted_wrt_nth_drop_Suc:
  assumes "sorted_wrt R ks" "i < length ks"
  shows "\<forall>k \<in> set (drop (Suc i) ks). R (ks ! i) k"
proof -
  have "sorted_wrt R (take i ks @ ks ! i # drop (Suc i) ks)"
    using assms by (simp add: id_take_nth_drop [symmetric])
  then show ?thesis by (simp add: sorted_wrt_append)
qed

lemma sorted_wrt_take_drop_cross:
  assumes "sorted_wrt R ks"
  shows "\<forall>a \<in> set (take i ks). \<forall>b \<in> set (drop i ks). R a b"
  using assms sorted_wrt_append [of R "take i ks" "drop i ks"] by simp

subsection \<open>Initialisation\<close>

lemma Init_eq:
  "Init INVALID_PAGE_ID raw page_id parent_id key_size max_size =
     raw\<lparr>page_type' := LEAF_PAGE, size' := 0, page_id' := page_id, parent_page_id' := parent_id,
         key_size' := key_size, max_size' := max_size, next_page_id' := INVALID_PAGE_ID\<rparr>"
  unfolding Init_def Let_def SetNextPageId_def SetMaxSize_def SetKeySize_def SetParentPageId_def
    SetPageId_def SetSize_def SetPageType_def
  by simp

lemma Init_empty:
  "GetSize (Init INVALID_PAGE_ID raw page_id parent_id key_size max_size) = 0"
  "keys (Init INVALID_PAGE_ID raw page_id parent_id key_size max_size) = []"
  "pairs (Init INVALID_PAGE_ID raw page_id parent_id key_size max_size) = []"
  by (simp_all add: Init_eq keys_def pairs_def GetSize_def)

subsection \<open>The binary search\<close>

lemma KeyIndex_loop_partition:
  assumes tr: "\<forall>a b c. KM a b \<le> 0 \<longrightarrow> KM b c \<le> 0 \<longrightarrow> KM a c \<le> 0"
    and srt: "\<forall>i j. 0 \<le> i \<and> i < j \<and> j < n \<longrightarrow> KM (KeyAt p i) (KeyAt p j) \<le> 0"
    and "0 \<le> l" "r < n" "l \<le> r + 1"
    and "\<forall>i. 0 \<le> i \<and> i < l \<longrightarrow> 0 < KM key (KeyAt p i)"
    and "\<forall>i. r < i \<and> i < n \<longrightarrow> KM key (KeyAt p i) \<le> 0"
  shows "l \<le> KeyIndex_loop KM p key l r \<and> KeyIndex_loop KM p key l r \<le> r + 1 \<and>
         (\<forall>i. 0 \<le> i \<and> i < KeyIndex_loop KM p key l r \<longrightarrow> 0 < KM key (KeyAt p i)) \<and>
         (\<forall>i. KeyIndex_loop KM p key l r \<le> i \<and> i < n \<longrightarrow> KM key (KeyAt p i) \<le> 0)"
  using assms
proof (induction KM p key l r rule: KeyIndex_loop.induct)
  case (1 KM p key left right)
  note tr = "1.prems"(1)
  show ?case
  proof (cases "left \<le> right")
    case False
    with "1.prems" have "right + 1 = left" by simp
    with False "1.prems" show ?thesis
      by (subst (1 2 3 4) KeyIndex_loop.simps) auto
  next
    case True
    define mid where "mid = left + (right - left) sdiv 2"
    have mid: "left \<le> mid" "mid \<le> right"
      using True by (simp_all add: mid_def sdiv_2_nonneg)
    show ?thesis
    proof (cases "KM key (KeyAt p mid) \<le> 0")
      case le: True
      have eq: "KeyIndex_loop KM p key left right = KeyIndex_loop KM p key left (mid - 1)"
        using True le by (subst KeyIndex_loop.simps) (simp add: mid_def Let_def)
      have hi: "\<forall>i. mid - 1 < i \<and> i < n \<longrightarrow> KM key (KeyAt p i) \<le> 0"
      proof (intro allI impI)
        fix i assume i: "mid - 1 < i \<and> i < n"
        show "KM key (KeyAt p i) \<le> 0"
        proof (cases "i = mid")
          case True with le show ?thesis by simp
        next
          case False
          with i mid "1.prems" have "KM (KeyAt p mid) (KeyAt p i) \<le> 0" by auto
          with le tr show ?thesis by blast
        qed
      qed
      have "left \<le> KeyIndex_loop KM p key left (mid - 1) \<and>
            KeyIndex_loop KM p key left (mid - 1) \<le> mid - 1 + 1 \<and>
            (\<forall>i. 0 \<le> i \<and> i < KeyIndex_loop KM p key left (mid - 1) \<longrightarrow> 0 < KM key (KeyAt p i)) \<and>
            (\<forall>i. KeyIndex_loop KM p key left (mid - 1) \<le> i \<and> i < n \<longrightarrow> KM key (KeyAt p i) \<le> 0)"
        using "1.IH"(1) [OF True mid_def le] "1.prems" mid hi by auto
      with mid show ?thesis unfolding eq by auto
    next
      case gt: False
      have eq: "KeyIndex_loop KM p key left right = KeyIndex_loop KM p key (mid + 1) right"
        using True gt by (subst KeyIndex_loop.simps) (simp add: mid_def Let_def)
      have lo: "\<forall>i. 0 \<le> i \<and> i < mid + 1 \<longrightarrow> 0 < KM key (KeyAt p i)"
      proof (intro allI impI)
        fix i assume i: "0 \<le> i \<and> i < mid + 1"
        show "0 < KM key (KeyAt p i)"
        proof (cases "i = mid")
          case True with gt show ?thesis by simp
        next
          case False
          with i mid "1.prems" have "KM (KeyAt p i) (KeyAt p mid) \<le> 0" by auto
          with gt tr show ?thesis by (meson not_le)
        qed
      qed
      have "mid + 1 \<le> KeyIndex_loop KM p key (mid + 1) right \<and>
            KeyIndex_loop KM p key (mid + 1) right \<le> right + 1 \<and>
            (\<forall>i. 0 \<le> i \<and> i < KeyIndex_loop KM p key (mid + 1) right \<longrightarrow> 0 < KM key (KeyAt p i)) \<and>
            (\<forall>i. KeyIndex_loop KM p key (mid + 1) right \<le> i \<and> i < n \<longrightarrow> KM key (KeyAt p i) \<le> 0)"
        using "1.IH"(2) [OF True mid_def gt] "1.prems" mid lo by auto
      with mid show ?thesis unfolding eq by auto
    qed
  qed
qed

lemma KeyIndex_partition:
  assumes "key_order KM" "0 \<le> GetSize p" "ascending KM (keys p)"
  shows "0 \<le> KeyIndex p key KM \<and> KeyIndex p key KM \<le> GetSize p \<and>
         (\<forall>i. 0 \<le> i \<and> i < KeyIndex p key KM \<longrightarrow> 0 < KM key (KeyAt p i)) \<and>
         (\<forall>i. KeyIndex p key KM \<le> i \<and> i < GetSize p \<longrightarrow> KM key (KeyAt p i) \<le> 0)"
proof -
  have srt: "\<forall>i j. 0 \<le> i \<and> i < j \<and> j < GetSize p \<longrightarrow> KM (KeyAt p i) (KeyAt p j) \<le> 0"
    using assms(3) by (simp add: ascending_def keys_sorted_wrt_iff)
  have "0 \<le> KeyIndex_loop KM p key 0 (GetSize p - 1) \<and>
        KeyIndex_loop KM p key 0 (GetSize p - 1) \<le> GetSize p - 1 + 1 \<and>
        (\<forall>i. 0 \<le> i \<and> i < KeyIndex_loop KM p key 0 (GetSize p - 1) \<longrightarrow> 0 < KM key (KeyAt p i)) \<and>
        (\<forall>i. KeyIndex_loop KM p key 0 (GetSize p - 1) \<le> i \<and> i < GetSize p \<longrightarrow> KM key (KeyAt p i) \<le> 0)"
    by (rule KeyIndex_loop_partition [OF key_order_trans [OF assms(1)] srt]) (use assms(2) in auto)
  then show ?thesis by (simp add: KeyIndex_def)
qed

lemma KeyIndex_on_keys:
  assumes "key_order KM" "0 \<le> GetSize p" "ascending KM (keys p)"
  shows "nat (KeyIndex p key KM) \<le> length (keys p)"
    and "\<forall>k \<in> set (take (nat (KeyIndex p key KM)) (keys p)). 0 < KM key k"
    and "\<forall>k \<in> set (drop (nat (KeyIndex p key KM)) (keys p)). KM key k \<le> 0"
proof -
  note part = KeyIndex_partition [OF assms, of key]
  show "nat (KeyIndex p key KM) \<le> length (keys p)" using part by (simp add: nat_mono)
  show "\<forall>k \<in> set (take (nat (KeyIndex p key KM)) (keys p)). 0 < KM key k"
  proof
    fix k assume "k \<in> set (take (nat (KeyIndex p key KM)) (keys p))"
    then obtain j where j: "j < nat (KeyIndex p key KM)" "j < length (keys p)" "k = keys p ! j"
      by (auto simp: in_set_conv_nth)
    then have "0 \<le> int j \<and> int j < KeyIndex p key KM" by auto
    with part have "0 < KM key (KeyAt p (int j))" by blast
    with j show "0 < KM key k" by (simp add: keys_nth)
  qed
  show "\<forall>k \<in> set (drop (nat (KeyIndex p key KM)) (keys p)). KM key k \<le> 0"
  proof
    fix k assume "k \<in> set (drop (nat (KeyIndex p key KM)) (keys p))"
    then obtain j where "j < length (keys p) - nat (KeyIndex p key KM)"
      "k = keys p ! (nat (KeyIndex p key KM) + j)"
      by (auto simp: in_set_conv_nth)
    then have j: "nat (KeyIndex p key KM) + j < length (keys p)"
      "k = keys p ! (nat (KeyIndex p key KM) + j)"
      by simp_all
    then have "KeyIndex p key KM \<le> int (nat (KeyIndex p key KM) + j) \<and>
               int (nat (KeyIndex p key KM) + j) < GetSize p"
      using part by auto
    with part have "KM key (KeyAt p (int (nat (KeyIndex p key KM) + j))) \<le> 0" by blast
    with j show "KM key k \<le> 0" by (simp add: keys_nth)
  qed
qed

lemma key_present_iff:
  "key_present KM p key \<longleftrightarrow> (\<exists>i. 0 \<le> i \<and> i < GetSize p \<and> KM key (KeyAt p i) = 0)"
proof
  assume "key_present KM p key"
  then obtain j where j: "j < length (keys p)" "KM key (keys p ! j) = 0"
    by (auto simp: key_present_def list_ex_iff in_set_conv_nth)
  then have "0 \<le> int j \<and> int j < GetSize p \<and> KM key (KeyAt p (int j)) = 0"
    by (auto simp: keys_nth)
  then show "\<exists>i. 0 \<le> i \<and> i < GetSize p \<and> KM key (KeyAt p i) = 0" by blast
next
  assume "\<exists>i. 0 \<le> i \<and> i < GetSize p \<and> KM key (KeyAt p i) = 0"
  then obtain i where i: "0 \<le> i" "i < GetSize p" "KM key (KeyAt p i) = 0" by blast
  then have "nat i < length (keys p)" "keys p ! nat i = KeyAt p i"
    by (auto simp: keys_nth)
  with i(3) show "key_present KM p key"
    unfolding key_present_def list_ex_iff by (metis nth_mem)
qed

lemma KeyIndex_of_present:
  assumes ko: "key_order KM" and sz: "0 \<le> GetSize p" and srt: "strictly_ascending KM (keys p)"
    and i: "0 \<le> i" "i < GetSize p" "KM key (KeyAt p i) = 0"
  shows "KeyIndex p key KM = i"
proof -
  note part = KeyIndex_partition [OF ko sz strictly_ascending_imp_ascending [OF srt], of key]
  have le: "KeyIndex p key KM \<le> i"
  proof (rule ccontr)
    assume "\<not> KeyIndex p key KM \<le> i"
    with part i(1) have "0 < KM key (KeyAt p i)" by auto
    with i(3) show False by simp
  qed
  have "\<not> KeyIndex p key KM < i"
  proof
    assume less: "KeyIndex p key KM < i"
    with part i(2) have "KM key (KeyAt p (KeyIndex p key KM)) \<le> 0" by auto
    moreover have "KM (KeyAt p (KeyIndex p key KM)) (KeyAt p i) < 0"
      using srt less i(2) part unfolding strictly_ascending_def keys_sorted_wrt_iff by blast
    ultimately have "KM key (KeyAt p i) < 0" by (rule key_order_le_less_trans [OF ko])
    with i(3) show False by simp
  qed
  with le show ?thesis by simp
qed

lemma found_iff_key_present:
  assumes "key_order KM" "0 \<le> GetSize p" "strictly_ascending KM (keys p)"
  shows "(KeyIndex p key KM < GetSize p \<and> KM key (KeyAt p (KeyIndex p key KM)) = 0) \<longleftrightarrow>
         key_present KM p key"
proof
  assume "KeyIndex p key KM < GetSize p \<and> KM key (KeyAt p (KeyIndex p key KM)) = 0"
  moreover have "0 \<le> KeyIndex p key KM"
    using KeyIndex_partition [OF assms(1,2) strictly_ascending_imp_ascending [OF assms(3)], of key]
    by simp
  ultimately show "key_present KM p key" unfolding key_present_iff by blast
next
  assume "key_present KM p key"
  then obtain i where i: "0 \<le> i" "i < GetSize p" "KM key (KeyAt p i) = 0"
    unfolding key_present_iff by blast
  with KeyIndex_of_present [OF assms i] show
    "KeyIndex p key KM < GetSize p \<and> KM key (KeyAt p (KeyIndex p key KM)) = 0" by simp
qed

text \<open>
  C2. On a page whose keys are ascending (duplicates allowed, so also on every strictly
  ascending page) \<^verbatim>\<open>KeyIndex\<close> returns an index in \<open>[0, size]\<close>; the key there, if that slot is
  live, is not below the search key; every key before it is below the search key, so it is
  the smallest such index and the leftmost among equal keys; on an empty page it is 0.
\<close>

theorem KeyIndex_smallest_not_below:
  assumes "key_order KM" and "0 \<le> GetSize p" and "ascending KM (keys p)"
  shows "0 \<le> KeyIndex p key KM \<and> KeyIndex p key KM \<le> GetSize p \<and>
         (KeyIndex p key KM < GetSize p \<longrightarrow> KM key (KeyAt p (KeyIndex p key KM)) \<le> 0) \<and>
         (\<forall>i. 0 \<le> i \<and> i < KeyIndex p key KM \<longrightarrow> 0 < KM key (KeyAt p i)) \<and>
         (\<forall>i. 0 \<le> i \<and> i < GetSize p \<and> KM key (KeyAt p i) \<le> 0 \<longrightarrow> KeyIndex p key KM \<le> i) \<and>
         (GetSize p = 0 \<longrightarrow> KeyIndex p key KM = 0)"
proof -
  note part = KeyIndex_partition [OF assms, of key]
  have "\<forall>i. 0 \<le> i \<and> i < GetSize p \<and> KM key (KeyAt p i) \<le> 0 \<longrightarrow> KeyIndex p key KM \<le> i"
  proof (intro allI impI)
    fix i assume i: "0 \<le> i \<and> i < GetSize p \<and> KM key (KeyAt p i) \<le> 0"
    show "KeyIndex p key KM \<le> i"
    proof (rule ccontr)
      assume "\<not> KeyIndex p key KM \<le> i"
      with i part have "0 < KM key (KeyAt p i)" by auto
      with i show False by simp
    qed
  qed
  with part show ?thesis by auto
qed

theorem KeyIndex_smallest_not_below_witness:
  "key_order CompareKeys_int \<and> 0 \<le> GetSize leaf_10_20_30 \<and>
   ascending CompareKeys_int (keys leaf_10_20_30) \<and>
   KeyIndex leaf_10_20_30 25 CompareKeys_int = 2 \<and>
   KeyAt leaf_10_20_30 2 = 30 \<and> KeyAt leaf_10_20_30 1 = 20 \<and>
   CompareKeys_int 25 (KeyAt leaf_10_20_30 (KeyIndex leaf_10_20_30 25 CompareKeys_int)) \<le> 0 \<and>
   0 < CompareKeys_int 25 (KeyAt leaf_10_20_30 0) \<and>
   0 < CompareKeys_int 25 (KeyAt leaf_10_20_30 1)"
proof -
  have h1: "key_order CompareKeys_int" by (rule key_order_CompareKeys_int)
  have h2: "0 \<le> GetSize leaf_10_20_30" by code_simp
  have h3: "ascending CompareKeys_int (keys leaf_10_20_30)" by code_simp
  have e: "KeyIndex leaf_10_20_30 25 CompareKeys_int = 2" "GetSize leaf_10_20_30 = 3"
    "KeyAt leaf_10_20_30 2 = 30" "KeyAt leaf_10_20_30 1 = 20"
    by code_simp+
  note inst = KeyIndex_smallest_not_below [OF h1 h2 h3, of 25]
  from inst e have a: "CompareKeys_int 25 (KeyAt leaf_10_20_30 (KeyIndex leaf_10_20_30 25 CompareKeys_int)) \<le> 0"
    by simp
  from inst have b: "\<forall>i. 0 \<le> i \<and> i < KeyIndex leaf_10_20_30 25 CompareKeys_int \<longrightarrow>
      0 < CompareKeys_int 25 (KeyAt leaf_10_20_30 i)"
    by blast
  from b e(1) have c: "0 < CompareKeys_int 25 (KeyAt leaf_10_20_30 0)"
    "0 < CompareKeys_int 25 (KeyAt leaf_10_20_30 1)"
    by simp_all
  show ?thesis
    using h1 h2 h3 e a c by simp
qed

subsection \<open>Insert\<close>

lemma Insert_page:
  "fst (Insert p key value KM) =
     p\<lparr>data' := (\<lambda>a. if a = KeyIndex p key KM then (key, value)
                      else if KeyIndex p key KM < a \<and> a \<le> GetSize p then data' p (a - 1)
                      else data' p a),
        size' := GetSize p + 1\<rparr>"
proof -
  have "(\<lambda>a. if KeyIndex p key KM < a \<and> a \<le> size' p then data' p (a - 1) else data' p a)
          (KeyIndex p key KM := (key, value)) =
        (\<lambda>a. if a = KeyIndex p key KM then (key, value)
              else if KeyIndex p key KM < a \<and> a \<le> size' p then data' p (a - 1)
              else data' p a)"
    by (auto simp: fun_eq_iff)
  then show ?thesis
    unfolding GetSize_def
    by (simp add: Insert_def Let_def ShiftRight_loop_eq SetKeyAt_def SetValueAt_def
        IncreaseSize_def GetSize_def)
qed

lemma Insert_result: "snd (Insert p key value KM) = GetSize p + 1"
  by (simp add: Insert_def Let_def ShiftRight_loop_eq SetKeyAt_def SetValueAt_def
      IncreaseSize_def GetSize_def)

lemma Insert_header:
  "next_page_id' (fst (Insert p key value KM)) = next_page_id' p"
  "max_size' (fst (Insert p key value KM)) = max_size' p"
  "key_size' (fst (Insert p key value KM)) = key_size' p"
  "page_id' (fst (Insert p key value KM)) = page_id' p"
  "parent_page_id' (fst (Insert p key value KM)) = parent_page_id' p"
  "GetSize (fst (Insert p key value KM)) = GetSize p + 1"
  by (simp_all add: Insert_page GetSize_def)

lemma Insert_size_nonneg: "0 \<le> GetSize p \<Longrightarrow> 0 \<le> GetSize (fst (Insert p key value KM))"
  by (simp add: Insert_page GetSize_def)

lemma pairs_Insert:
  assumes "0 \<le> KeyIndex p key KM" "KeyIndex p key KM \<le> GetSize p"
  shows "pairs (fst (Insert p key value KM)) =
           take (nat (KeyIndex p key KM)) (pairs p) @ (key, value) # drop (nat (KeyIndex p key KM)) (pairs p)"
proof (rule nth_equalityI)
  show "length (pairs (fst (Insert p key value KM))) =
        length (take (nat (KeyIndex p key KM)) (pairs p) @ (key, value) # drop (nat (KeyIndex p key KM)) (pairs p))"
    using assms by (simp add: Insert_page GetSize_def)
next
  fix i assume "i < length (pairs (fst (Insert p key value KM)))"
  then have i: "int i \<le> GetSize p" using assms by (simp add: Insert_page GetSize_def)
  show "pairs (fst (Insert p key value KM)) ! i =
        (take (nat (KeyIndex p key KM)) (pairs p) @ (key, value) # drop (nat (KeyIndex p key KM)) (pairs p)) ! i"
    using assms i
    by (auto simp: Insert_page pairs_alt GetSize_def nth_append nth_Cons' min_def nat_less_iff
             nat_diff_distrib' of_nat_diff)
qed

lemma keys_Insert:
  assumes "0 \<le> KeyIndex p key KM" "KeyIndex p key KM \<le> GetSize p"
  shows "keys (fst (Insert p key value KM)) =
           take (nat (KeyIndex p key KM)) (keys p) @ key # drop (nat (KeyIndex p key KM)) (keys p)"
  by (simp add: keys_def pairs_Insert [OF assms] take_map drop_map)

lemma spec_sorted_insert_take_drop:
  "i \<le> length xs \<Longrightarrow> \<forall>x \<in> set (take i xs). 0 < KM key (fst x) \<Longrightarrow>
   \<forall>x \<in> set (drop i xs). KM key (fst x) \<le> 0 \<Longrightarrow>
   spec_sorted_insert KM key value xs = take i xs @ (key, value) # drop i xs"
proof (induction xs arbitrary: i)
  case Nil
  then show ?case by simp
next
  case (Cons x xs)
  show ?case
  proof (cases i)
    case 0
    with Cons.prems show ?thesis by simp
  next
    case (Suc j)
    with Cons.prems have "0 < KM key (fst x)" by simp
    moreover have "spec_sorted_insert KM key value xs = take j xs @ (key, value) # drop j xs"
      using Cons.prems Suc by (intro Cons.IH) auto
    ultimately show ?thesis using Suc by simp
  qed
qed

lemma pairs_Insert_absent:
  assumes ko: "key_order KM" and sz: "0 \<le> GetSize p" and asc: "ascending KM (keys p)"
  shows "pairs (fst (Insert p key value KM)) = spec_sorted_insert KM key value (pairs p)"
proof -
  note part = KeyIndex_partition [OF ko sz asc, of key]
  note on_keys = KeyIndex_on_keys [OF ko sz asc, of key]
  have "spec_sorted_insert KM key value (pairs p) =
        take (nat (KeyIndex p key KM)) (pairs p) @ (key, value) #
        drop (nat (KeyIndex p key KM)) (pairs p)"
  proof (rule spec_sorted_insert_take_drop)
    show "nat (KeyIndex p key KM) \<le> length (pairs p)" using on_keys(1) by simp
    show "\<forall>x \<in> set (take (nat (KeyIndex p key KM)) (pairs p)). 0 < KM key (fst x)"
      using on_keys(2) by (simp add: keys_def take_map)
    show "\<forall>x \<in> set (drop (nat (KeyIndex p key KM)) (pairs p)). KM key (fst x) \<le> 0"
      using on_keys(3) by (simp add: keys_def drop_map)
  qed
  moreover have "pairs (fst (Insert p key value KM)) =
           take (nat (KeyIndex p key KM)) (pairs p) @ (key, value) #
           drop (nat (KeyIndex p key KM)) (pairs p)"
    using part by (intro pairs_Insert) simp_all
  ultimately show ?thesis by simp
qed

lemma Insert_strictly_ascending:
  assumes ko: "key_order KM" and sz: "0 \<le> GetSize p" and srt: "strictly_ascending KM (keys p)"
    and absent: "\<not> key_present KM p key"
  shows "strictly_ascending KM (keys (fst (Insert p key value KM)))"
proof -
  note asc = strictly_ascending_imp_ascending [OF srt]
  note part = KeyIndex_partition [OF ko sz asc, of key]
  note on_keys = KeyIndex_on_keys [OF ko sz asc, of key]
  have before: "\<forall>k \<in> set (take (nat (KeyIndex p key KM)) (keys p)). KM k key < 0"
    using on_keys(2) key_order_flip [OF ko] by blast
  have after: "\<forall>k \<in> set (drop (nat (KeyIndex p key KM)) (keys p)). KM key k < 0"
  proof
    fix k assume k: "k \<in> set (drop (nat (KeyIndex p key KM)) (keys p))"
    then have "k \<in> set (keys p)" by (rule in_set_dropD)
    with absent have "KM key k \<noteq> 0" by (auto simp: key_present_def list_ex_iff)
    moreover from k on_keys(3) have "KM key k \<le> 0" by blast
    ultimately show "KM key k < 0" by simp
  qed
  show ?thesis
    unfolding strictly_ascending_def keys_Insert [OF conjunct1 [OF part] conjunct1 [OF conjunct2 [OF part]]]
    using srt before after
    by (intro sorted_wrt_insert_between) (simp_all add: strictly_ascending_def)
qed

text \<open>
  C3. On a strictly ascending page with \<open>size < max_size\<close> and a key that is not present,
  \<^verbatim>\<open>Insert\<close> yields the sorted insertion of the pair as the spec words it: the pairs before
  the position \<^verbatim>\<open>KeyIndex\<close> stay, the new pair follows, the pairs from that position on
  follow in their order; the page is strictly ascending again; the call returns the
  size before the call plus 1, which is the new size.
\<close>

theorem Insert_is_sorted_insertion:
  assumes "key_order KM" and "0 \<le> GetSize p" and "strictly_ascending KM (keys p)"
    and "GetSize p < max_size' p" and "\<not> key_present KM p key"
  shows "pairs (fst (Insert p key value KM)) = spec_sorted_insert KM key value (pairs p) \<and>
         pairs (fst (Insert p key value KM)) =
           take (nat (KeyIndex p key KM)) (pairs p) @ (key, value) #
           drop (nat (KeyIndex p key KM)) (pairs p) \<and>
         strictly_ascending KM (keys (fst (Insert p key value KM))) \<and>
         snd (Insert p key value KM) = GetSize p + 1 \<and>
         GetSize (fst (Insert p key value KM)) = GetSize p + 1 \<and>
         GetSize (fst (Insert p key value KM)) \<le> max_size' (fst (Insert p key value KM))"
proof -
  note asc = strictly_ascending_imp_ascending [OF assms(3)]
  note part = KeyIndex_partition [OF assms(1,2) asc, of key]
  have "pairs (fst (Insert p key value KM)) = spec_sorted_insert KM key value (pairs p)"
    using assms(1,2) asc by (rule pairs_Insert_absent)
  moreover have "pairs (fst (Insert p key value KM)) =
           take (nat (KeyIndex p key KM)) (pairs p) @ (key, value) #
           drop (nat (KeyIndex p key KM)) (pairs p)"
    using part by (intro pairs_Insert) simp_all
  moreover have "strictly_ascending KM (keys (fst (Insert p key value KM)))"
    using assms(1,2,3,5) by (rule Insert_strictly_ascending)
  ultimately show ?thesis
    using assms(4) by (simp add: Insert_result Insert_header)
qed

theorem Insert_is_sorted_insertion_witness:
  "key_order CompareKeys_int \<and> 0 \<le> GetSize leaf_10_20_30 \<and>
   strictly_ascending CompareKeys_int (keys leaf_10_20_30) \<and>
   GetSize leaf_10_20_30 < max_size' leaf_10_20_30 \<and>
   \<not> key_present CompareKeys_int leaf_10_20_30 25 \<and>
   pairs (fst (Insert leaf_10_20_30 25 250 CompareKeys_int)) =
     spec_sorted_insert CompareKeys_int 25 250 (pairs leaf_10_20_30) \<and>
   spec_sorted_insert CompareKeys_int 25 250 (pairs leaf_10_20_30) =
     [(10, 100), (20, 200), (25, 250), (30, 300)] \<and>
   strictly_ascending CompareKeys_int (keys (fst (Insert leaf_10_20_30 25 250 CompareKeys_int))) \<and>
   snd (Insert leaf_10_20_30 25 250 CompareKeys_int) = 4"
proof -
  have h1: "key_order CompareKeys_int" by (rule key_order_CompareKeys_int)
  have h2: "0 \<le> GetSize leaf_10_20_30" by code_simp
  have h3: "strictly_ascending CompareKeys_int (keys leaf_10_20_30)" by code_simp
  have h4: "GetSize leaf_10_20_30 < max_size' leaf_10_20_30" by code_simp
  have h5: "\<not> key_present CompareKeys_int leaf_10_20_30 25" by code_simp
  have e: "spec_sorted_insert CompareKeys_int 25 250 (pairs leaf_10_20_30) =
     [(10, 100), (20, 200), (25, 250), (30, 300)]" "GetSize leaf_10_20_30 = 3"
    by code_simp+
  show ?thesis
    using Insert_is_sorted_insertion [OF h1 h2 h3 h4 h5, of 250] h1 h2 h3 h4 h5 e by simp
qed

subsection \<open>Lookup\<close>

lemma Lookup_at:
  assumes "key_order KM" "0 \<le> GetSize p" "strictly_ascending KM (keys p)"
    and "i < length (pairs p)" "KM key (fst (pairs p ! i)) = 0"
  shows "Lookup p key value KM = (p, True, snd (pairs p ! i))"
proof -
  have i: "0 \<le> int i" "int i < GetSize p" "KM key (KeyAt p (int i)) = 0"
    using assms(4,5) by (simp_all add: pairs_nth KeyAt_def)
  have "KeyIndex p key KM = int i"
    by (rule KeyIndex_of_present [OF assms(1,2,3) i])
  with i assms(4) show ?thesis
    by (simp add: Lookup_def pairs_nth ValueAt_def)
qed

text \<open>
  C4. On a strictly ascending page: when a live pair has a key equal to the search key,
  \<^verbatim>\<open>Lookup\<close> returns found and the value of that pair; when no live pair has, it returns
  not found and leaves the reference parameter as it was; in both cases the page it
  returns is the page it was called on, with every header field and slot as before.
\<close>

theorem Lookup_finds_exactly_the_present_key:
  assumes "key_order KM" and "0 \<le> GetSize p" and "strictly_ascending KM (keys p)"
  shows "(\<forall>i. 0 \<le> i \<and> i < GetSize p \<and> KM key (KeyAt p i) = 0 \<longrightarrow>
            Lookup p key value KM = (p, True, ValueAt p i)) \<and>
         (\<not> key_present KM p key \<longrightarrow> Lookup p key value KM = (p, False, value)) \<and>
         fst (Lookup p key value KM) = p"
proof (intro conjI allI impI)
  fix i assume i: "0 \<le> i \<and> i < GetSize p \<and> KM key (KeyAt p i) = 0"
  then have "KeyIndex p key KM = i" using KeyIndex_of_present [OF assms] by blast
  with i show "Lookup p key value KM = (p, True, ValueAt p i)"
    by (simp add: Lookup_def)
next
  assume "\<not> key_present KM p key"
  then show "Lookup p key value KM = (p, False, value)"
    using found_iff_key_present [OF assms, of key] by (auto simp: Lookup_def Let_def)
next
  show "fst (Lookup p key value KM) = p"
    by (simp add: Lookup_def Let_def)
qed

theorem Lookup_finds_exactly_the_present_key_witness:
  "key_order CompareKeys_int \<and> 0 \<le> GetSize leaf_10_20_30 \<and>
   strictly_ascending CompareKeys_int (keys leaf_10_20_30) \<and>
   CompareKeys_int 20 (KeyAt leaf_10_20_30 1) = 0 \<and> ValueAt leaf_10_20_30 1 = 200 \<and>
   Lookup leaf_10_20_30 20 0 CompareKeys_int = (leaf_10_20_30, True, 200) \<and>
   \<not> key_present CompareKeys_int leaf_10_20_30 25 \<and>
   Lookup leaf_10_20_30 25 0 CompareKeys_int = (leaf_10_20_30, False, 0)"
proof -
  have h1: "key_order CompareKeys_int" by (rule key_order_CompareKeys_int)
  have h2: "0 \<le> GetSize leaf_10_20_30" by code_simp
  have h3: "strictly_ascending CompareKeys_int (keys leaf_10_20_30)" by code_simp
  have e: "CompareKeys_int 20 (KeyAt leaf_10_20_30 1) = 0" "ValueAt leaf_10_20_30 1 = 200"
    "GetSize leaf_10_20_30 = 3" "\<not> key_present CompareKeys_int leaf_10_20_30 25"
    by code_simp+
  note inst20 = Lookup_finds_exactly_the_present_key [OF h1 h2 h3, of 20 0]
  note inst25 = Lookup_finds_exactly_the_present_key [OF h1 h2 h3, of 25 0]
  from inst20 have "0 \<le> (1::int) \<and> 1 < GetSize leaf_10_20_30 \<and>
      CompareKeys_int 20 (KeyAt leaf_10_20_30 1) = 0 \<longrightarrow>
      Lookup leaf_10_20_30 20 0 CompareKeys_int = (leaf_10_20_30, True, ValueAt leaf_10_20_30 1)"
    by blast
  with e have a: "Lookup leaf_10_20_30 20 0 CompareKeys_int = (leaf_10_20_30, True, 200)"
    by simp
  from inst25 e have b: "Lookup leaf_10_20_30 25 0 CompareKeys_int = (leaf_10_20_30, False, 0)"
    by blast
  show ?thesis using h1 h2 h3 e a b by simp
qed

subsection \<open>RemoveAndDeleteRecord\<close>

lemma RemoveAndDeleteRecord_found:
  assumes "KeyIndex p key KM < GetSize p" "KM key (KeyAt p (KeyIndex p key KM)) = 0"
  shows "RemoveAndDeleteRecord p key KM =
           (p\<lparr>data' := (\<lambda>a. if KeyIndex p key KM \<le> a \<and> a < size' p - 1 then data' p (a + 1)
                            else data' p a),
              size' := size' p - 1\<rparr>,
            GetSize p - 1)"
  using assms
  by (simp add: RemoveAndDeleteRecord_def Let_def ShiftLeft_loop_eq IncreaseSize_def GetSize_def)

lemma RemoveAndDeleteRecord_not_found:
  assumes "\<not> (KeyIndex p key KM < GetSize p \<and> KM key (KeyAt p (KeyIndex p key KM)) = 0)"
  shows "RemoveAndDeleteRecord p key KM = (p, GetSize p)"
  using assms by (auto simp: RemoveAndDeleteRecord_def Let_def)

lemma keys_after_removal:
  assumes ko: "key_order KM" and sz: "0 \<le> GetSize p" and srt: "strictly_ascending KM (keys p)"
    and present: "key_present KM p key"
  shows "nat (KeyIndex p key KM) < length (pairs p)"
    and "KM key (fst (pairs p ! nat (KeyIndex p key KM))) = 0"
    and "pairs (fst (RemoveAndDeleteRecord p key KM)) =
           take (nat (KeyIndex p key KM)) (pairs p) @ drop (Suc (nat (KeyIndex p key KM))) (pairs p)"
    and "snd (RemoveAndDeleteRecord p key KM) = GetSize p - 1"
    and "GetSize (fst (RemoveAndDeleteRecord p key KM)) = GetSize p - 1"
    and "\<forall>k \<in> set (keys (fst (RemoveAndDeleteRecord p key KM))). KM key k \<noteq> 0"
proof -
  note asc = strictly_ascending_imp_ascending [OF srt]
  note part = KeyIndex_partition [OF ko sz asc, of key]
  note on_keys = KeyIndex_on_keys [OF ko sz asc, of key]
  from present have found: "KeyIndex p key KM < GetSize p" "KM key (KeyAt p (KeyIndex p key KM)) = 0"
    using found_iff_key_present [OF ko sz srt, of key] by simp_all
  note eq = RemoveAndDeleteRecord_found [OF found]
  show lt: "nat (KeyIndex p key KM) < length (pairs p)" using found(1) part by simp
  have nth: "keys p ! nat (KeyIndex p key KM) = KeyAt p (KeyIndex p key KM)"
    using part found(1) by (simp add: keys_nth)
  show "KM key (fst (pairs p ! nat (KeyIndex p key KM))) = 0"
    using found(2) lt nth by (simp add: keys_def)
  show td: "pairs (fst (RemoveAndDeleteRecord p key KM)) =
           take (nat (KeyIndex p key KM)) (pairs p) @ drop (Suc (nat (KeyIndex p key KM))) (pairs p)"
    unfolding eq fst_conv using part found(1) by (intro pairs_remove_slot) (simp_all add: GetSize_def)
  show "snd (RemoveAndDeleteRecord p key KM) = GetSize p - 1" by (simp add: eq)
  show "GetSize (fst (RemoveAndDeleteRecord p key KM)) = GetSize p - 1"
    by (simp add: eq GetSize_def)
  have ks: "keys (fst (RemoveAndDeleteRecord p key KM)) =
      take (nat (KeyIndex p key KM)) (keys p) @ drop (Suc (nat (KeyIndex p key KM))) (keys p)"
    by (simp add: keys_def td take_map drop_map)
  have "\<forall>k \<in> set (drop (Suc (nat (KeyIndex p key KM))) (keys p)). KM key k < 0"
  proof
    fix k assume "k \<in> set (drop (Suc (nat (KeyIndex p key KM))) (keys p))"
    then have "KM (keys p ! nat (KeyIndex p key KM)) k < 0"
      using sorted_wrt_nth_drop_Suc [of "\<lambda>a b. KM a b < 0" "keys p" "nat (KeyIndex p key KM)"]
        srt lt by (simp add: strictly_ascending_def)
    then show "KM key k < 0"
      using key_order_le_less_trans [OF ko, of key "KeyAt p (KeyIndex p key KM)" k] found(2) nth
      by simp
  qed
  then show "\<forall>k \<in> set (keys (fst (RemoveAndDeleteRecord p key KM))). KM key k \<noteq> 0"
    unfolding ks using on_keys(2) by fastforce
qed

lemma RemoveAndDeleteRecord_strictly_ascending:
  assumes ko: "key_order KM" and sz: "0 \<le> GetSize p" and srt: "strictly_ascending KM (keys p)"
  shows "strictly_ascending KM (keys (fst (RemoveAndDeleteRecord p key KM)))"
proof (cases "key_present KM p key")
  case True
  have "keys (fst (RemoveAndDeleteRecord p key KM)) =
      take (nat (KeyIndex p key KM)) (keys p) @ drop (Suc (nat (KeyIndex p key KM))) (keys p)"
    by (simp add: keys_def keys_after_removal(3) [OF ko sz srt True] take_map drop_map)
  then show ?thesis
    using srt by (simp add: strictly_ascending_def sorted_wrt_remove_nth)
next
  case False
  then have "RemoveAndDeleteRecord p key KM = (p, GetSize p)"
    using found_iff_key_present [OF ko sz srt, of key] by (intro RemoveAndDeleteRecord_not_found) simp
  with srt show ?thesis by simp
qed

lemma RemoveAndDeleteRecord_size_nonneg:
  assumes ko: "key_order KM" and sz: "0 \<le> GetSize p" and srt: "strictly_ascending KM (keys p)"
  shows "0 \<le> GetSize (fst (RemoveAndDeleteRecord p key KM))"
proof (cases "key_present KM p key")
  case True
  from keys_after_removal(1,5) [OF ko sz srt True] show ?thesis by simp
next
  case False
  then have "RemoveAndDeleteRecord p key KM = (p, GetSize p)"
    using found_iff_key_present [OF ko sz srt, of key] by (intro RemoveAndDeleteRecord_not_found) simp
  with sz show ?thesis by simp
qed

text \<open>
  C5. On a strictly ascending page: when the key is present, \<^verbatim>\<open>RemoveAndDeleteRecord\<close> removes
  the pair at the position of that key and nothing else, the later pairs follow in their
  order, the page stays strictly ascending and no longer holds the key, and the call
  returns the size before the call minus 1, which is the new size; when the key is absent,
  the page it returns is the page it was called on and the result is the unchanged size,
  so calling it again with the same key changes nothing either.
\<close>

theorem RemoveAndDeleteRecord_removes_exactly_the_key:
  assumes "key_order KM" and "0 \<le> GetSize p" and "strictly_ascending KM (keys p)"
  shows "(key_present KM p key \<longrightarrow>
            nat (KeyIndex p key KM) < length (pairs p) \<and>
            KM key (fst (pairs p ! nat (KeyIndex p key KM))) = 0 \<and>
            pairs (fst (RemoveAndDeleteRecord p key KM)) =
              take (nat (KeyIndex p key KM)) (pairs p) @
              drop (Suc (nat (KeyIndex p key KM))) (pairs p) \<and>
            snd (RemoveAndDeleteRecord p key KM) = GetSize p - 1 \<and>
            GetSize (fst (RemoveAndDeleteRecord p key KM)) = GetSize p - 1 \<and>
            strictly_ascending KM (keys (fst (RemoveAndDeleteRecord p key KM))) \<and>
            \<not> key_present KM (fst (RemoveAndDeleteRecord p key KM)) key) \<and>
         (\<not> key_present KM p key \<longrightarrow>
            RemoveAndDeleteRecord p key KM = (p, GetSize p) \<and>
            RemoveAndDeleteRecord (fst (RemoveAndDeleteRecord p key KM)) key KM = (p, GetSize p))"
proof (intro conjI impI)
  assume present: "key_present KM p key"
  note r = keys_after_removal [OF assms present]
  show "nat (KeyIndex p key KM) < length (pairs p)" by (rule r(1))
  show "KM key (fst (pairs p ! nat (KeyIndex p key KM))) = 0" by (rule r(2))
  show "pairs (fst (RemoveAndDeleteRecord p key KM)) =
          take (nat (KeyIndex p key KM)) (pairs p) @ drop (Suc (nat (KeyIndex p key KM))) (pairs p)"
    by (rule r(3))
  show "snd (RemoveAndDeleteRecord p key KM) = GetSize p - 1" by (rule r(4))
  show "GetSize (fst (RemoveAndDeleteRecord p key KM)) = GetSize p - 1" by (rule r(5))
  show "strictly_ascending KM (keys (fst (RemoveAndDeleteRecord p key KM)))"
    using assms by (rule RemoveAndDeleteRecord_strictly_ascending)
  show "\<not> key_present KM (fst (RemoveAndDeleteRecord p key KM)) key"
    using r(6) by (simp add: key_present_def list_ex_iff)
next
  assume absent: "\<not> key_present KM p key"
  then show eq: "RemoveAndDeleteRecord p key KM = (p, GetSize p)"
    using found_iff_key_present [OF assms, of key] by (intro RemoveAndDeleteRecord_not_found) simp
  show "RemoveAndDeleteRecord (fst (RemoveAndDeleteRecord p key KM)) key KM = (p, GetSize p)"
    by (simp add: eq)
qed

theorem RemoveAndDeleteRecord_removes_exactly_the_key_witness:
  "key_order CompareKeys_int \<and> 0 \<le> GetSize leaf_10_20_30 \<and>
   strictly_ascending CompareKeys_int (keys leaf_10_20_30) \<and>
   key_present CompareKeys_int leaf_10_20_30 20 \<and>
   pairs (fst (RemoveAndDeleteRecord leaf_10_20_30 20 CompareKeys_int)) =
     take (nat (KeyIndex leaf_10_20_30 20 CompareKeys_int)) (pairs leaf_10_20_30) @
     drop (Suc (nat (KeyIndex leaf_10_20_30 20 CompareKeys_int))) (pairs leaf_10_20_30) \<and>
   take (nat (KeyIndex leaf_10_20_30 20 CompareKeys_int)) (pairs leaf_10_20_30) @
     drop (Suc (nat (KeyIndex leaf_10_20_30 20 CompareKeys_int))) (pairs leaf_10_20_30) =
     [(10, 100), (30, 300)] \<and>
   snd (RemoveAndDeleteRecord leaf_10_20_30 20 CompareKeys_int) = 2 \<and>
   \<not> key_present CompareKeys_int leaf_10_20_30 25 \<and>
   RemoveAndDeleteRecord leaf_10_20_30 25 CompareKeys_int = (leaf_10_20_30, 3)"
proof -
  have h1: "key_order CompareKeys_int" by (rule key_order_CompareKeys_int)
  have h2: "0 \<le> GetSize leaf_10_20_30" by code_simp
  have h3: "strictly_ascending CompareKeys_int (keys leaf_10_20_30)" by code_simp
  have e: "key_present CompareKeys_int leaf_10_20_30 20"
    "\<not> key_present CompareKeys_int leaf_10_20_30 25"
    "GetSize leaf_10_20_30 = 3"
    "take (nat (KeyIndex leaf_10_20_30 20 CompareKeys_int)) (pairs leaf_10_20_30) @
     drop (Suc (nat (KeyIndex leaf_10_20_30 20 CompareKeys_int))) (pairs leaf_10_20_30) =
     [(10, 100), (30, 300)]"
    by code_simp+
  note inst20 = RemoveAndDeleteRecord_removes_exactly_the_key [OF h1 h2 h3, of 20]
  note inst25 = RemoveAndDeleteRecord_removes_exactly_the_key [OF h1 h2 h3, of 25]
  from inst20 e(1) have a:
    "pairs (fst (RemoveAndDeleteRecord leaf_10_20_30 20 CompareKeys_int)) =
     take (nat (KeyIndex leaf_10_20_30 20 CompareKeys_int)) (pairs leaf_10_20_30) @
     drop (Suc (nat (KeyIndex leaf_10_20_30 20 CompareKeys_int))) (pairs leaf_10_20_30)"
    "snd (RemoveAndDeleteRecord leaf_10_20_30 20 CompareKeys_int) = GetSize leaf_10_20_30 - 1"
    by blast+
  from inst25 e(2) have b:
    "RemoveAndDeleteRecord leaf_10_20_30 25 CompareKeys_int = (leaf_10_20_30, GetSize leaf_10_20_30)"
    by blast
  show ?thesis using h1 h2 h3 e a b by simp
qed

subsection \<open>Sequences of Insert and RemoveAndDeleteRecord\<close>

lemma observed_strictly_ascending:
  assumes ko: "key_order KM"
  shows "0 \<le> GetSize p \<Longrightarrow> strictly_ascending KM (keys p) \<Longrightarrow>
         within_capacity KM p ops \<Longrightarrow> absent_keys_only KM p ops \<Longrightarrow>
         \<forall>q \<in> set (observed KM p ops). 0 \<le> GetSize q \<and> strictly_ascending KM (keys q)"
proof (induction ops arbitrary: p)
  case Nil
  then show ?case by simp
next
  case (Cons x xs)
  show ?case
  proof (cases x)
    case (OpInsert k v)
    with Cons.prems have absent: "\<not> key_present KM p k"
      and rest: "within_capacity KM (fst (Insert p k v KM)) xs"
        "absent_keys_only KM (fst (Insert p k v KM)) xs"
      by simp_all
    have "0 \<le> GetSize (fst (Insert p k v KM))"
      using Cons.prems(1) by (rule Insert_size_nonneg)
    moreover have "strictly_ascending KM (keys (fst (Insert p k v KM)))"
      using ko Cons.prems(1,2) absent by (rule Insert_strictly_ascending)
    ultimately have "\<forall>q \<in> set (observed KM (fst (Insert p k v KM)) xs).
        0 \<le> GetSize q \<and> strictly_ascending KM (keys q)"
      using rest by (intro Cons.IH)
    with Cons.prems(1,2) OpInsert show ?thesis by simp
  next
    case (OpRemove key)
    with Cons.prems have rest: "within_capacity KM (fst (RemoveAndDeleteRecord p key KM)) xs"
        "absent_keys_only KM (fst (RemoveAndDeleteRecord p key KM)) xs"
      by simp_all
    have "0 \<le> GetSize (fst (RemoveAndDeleteRecord p key KM))"
      using ko Cons.prems(1,2) by (rule RemoveAndDeleteRecord_size_nonneg)
    moreover have "strictly_ascending KM (keys (fst (RemoveAndDeleteRecord p key KM)))"
      using ko Cons.prems(1,2) by (rule RemoveAndDeleteRecord_strictly_ascending)
    ultimately have "\<forall>q \<in> set (observed KM (fst (RemoveAndDeleteRecord p key KM)) xs).
        0 \<le> GetSize q \<and> strictly_ascending KM (keys q)"
      using rest by (intro Cons.IH)
    with Cons.prems(1,2) OpRemove show ?thesis by simp
  qed
qed

text \<open>
  C1, as amended. Start from a freshly initialised page and run any sequence of \<^verbatim>\<open>Insert\<close>
  and \<^verbatim>\<open>RemoveAndDeleteRecord\<close> calls in which every \<^verbatim>\<open>Insert\<close> is called while
  \<open>size < max_size\<close> and with a key that the page does not hold at that moment: every page
  observed on the way is strictly ascending by the comparator and has no two keys that
  compare equal. In particular one \<^verbatim>\<open>Insert\<close> of an absent key into a strictly ascending
  page with \<open>size < max_size\<close> leaves it strictly ascending and without duplicate keys.
\<close>

theorem Insert_Remove_keep_strictly_ascending:
  assumes "key_order KM"
  shows "(within_capacity KM (Init INVALID_PAGE_ID raw page_id parent_id key_size max_size) ops \<and>
          absent_keys_only KM (Init INVALID_PAGE_ID raw page_id parent_id key_size max_size) ops \<longrightarrow>
            (\<forall>q \<in> set (observed KM (Init INVALID_PAGE_ID raw page_id parent_id key_size max_size) ops).
               strictly_ascending KM (keys q) \<and> no_duplicate_keys KM (keys q))) \<and>
         (0 \<le> GetSize p \<and> strictly_ascending KM (keys p) \<and> GetSize p < max_size' p \<and>
          \<not> key_present KM p key \<longrightarrow>
            strictly_ascending KM (keys (fst (Insert p key value KM))) \<and>
            no_duplicate_keys KM (keys (fst (Insert p key value KM))))"
proof (rule conjI; rule impI)
  let ?p0 = "Init INVALID_PAGE_ID raw page_id parent_id key_size max_size"
  assume a: "within_capacity KM ?p0 ops \<and> absent_keys_only KM ?p0 ops"
  have z: "0 \<le> GetSize ?p0" by (simp add: Init_empty)
  have s: "strictly_ascending KM (keys ?p0)" by (simp add: Init_empty strictly_ascending_def)
  have "\<forall>q \<in> set (observed KM ?p0 ops). 0 \<le> GetSize q \<and> strictly_ascending KM (keys q)"
    using z s conjunct1 [OF a] conjunct2 [OF a] by (rule observed_strictly_ascending [OF assms])
  then show "\<forall>q \<in> set (observed KM ?p0 ops).
      strictly_ascending KM (keys q) \<and> no_duplicate_keys KM (keys q)"
    using strictly_ascending_no_duplicates [OF assms] by simp
next
  assume a: "0 \<le> GetSize p \<and> strictly_ascending KM (keys p) \<and> GetSize p < max_size' p \<and>
          \<not> key_present KM p key"
  then have "0 \<le> GetSize p" "strictly_ascending KM (keys p)" "\<not> key_present KM p key"
    by simp_all
  then have s: "strictly_ascending KM (keys (fst (Insert p key value KM)))"
    by (rule Insert_strictly_ascending [OF assms])
  then show "strictly_ascending KM (keys (fst (Insert p key value KM))) \<and>
             no_duplicate_keys KM (keys (fst (Insert p key value KM)))"
    using strictly_ascending_no_duplicates [OF assms] by simp
qed

theorem Insert_Remove_keep_strictly_ascending_witness:
  "key_order CompareKeys_int \<and>
   within_capacity CompareKeys_int (Init (- 1) zero_page 1 0 4 4)
     [OpInsert 30 300, OpInsert 10 100, OpRemove 30, OpInsert 20 200] \<and>
   absent_keys_only CompareKeys_int (Init (- 1) zero_page 1 0 4 4)
     [OpInsert 30 300, OpInsert 10 100, OpRemove 30, OpInsert 20 200] \<and>
   keys (last (observed CompareKeys_int (Init (- 1) zero_page 1 0 4 4)
     [OpInsert 30 300, OpInsert 10 100, OpRemove 30, OpInsert 20 200])) = [10, 20] \<and>
   strictly_ascending CompareKeys_int
     (keys (last (observed CompareKeys_int (Init (- 1) zero_page 1 0 4 4)
        [OpInsert 30 300, OpInsert 10 100, OpRemove 30, OpInsert 20 200]))) \<and>
   no_duplicate_keys CompareKeys_int
     (keys (last (observed CompareKeys_int (Init (- 1) zero_page 1 0 4 4)
        [OpInsert 30 300, OpInsert 10 100, OpRemove 30, OpInsert 20 200]))) \<and>
   0 \<le> GetSize leaf_10_20_30 \<and> strictly_ascending CompareKeys_int (keys leaf_10_20_30) \<and>
   GetSize leaf_10_20_30 < max_size' leaf_10_20_30 \<and>
   \<not> key_present CompareKeys_int leaf_10_20_30 25 \<and>
   strictly_ascending CompareKeys_int (keys (fst (Insert leaf_10_20_30 25 250 CompareKeys_int)))"
proof -
  let ?ops = "[OpInsert 30 300, OpInsert 10 100, OpRemove 30, OpInsert 20 200] :: (int, int) leaf_op list"
  let ?p0 = "Init (- 1) zero_page 1 0 4 4 :: (int, int) leaf_page"
  have h1: "key_order CompareKeys_int" by (rule key_order_CompareKeys_int)
  have h2: "within_capacity CompareKeys_int ?p0 ?ops" by code_simp
  have h3: "absent_keys_only CompareKeys_int ?p0 ?ops" by code_simp
  have h4: "0 \<le> GetSize leaf_10_20_30" "strictly_ascending CompareKeys_int (keys leaf_10_20_30)"
    "GetSize leaf_10_20_30 < max_size' leaf_10_20_30"
    "\<not> key_present CompareKeys_int leaf_10_20_30 25"
    by code_simp+
  have e: "keys (last (observed CompareKeys_int ?p0 ?ops)) = [10, 20]" by code_simp
  have m: "last (observed CompareKeys_int ?p0 ?ops) \<in> set (observed CompareKeys_int ?p0 ?ops)"
    by (rule last_in_set) simp
  note inst = Insert_Remove_keep_strictly_ascending [OF h1, of "- 1" zero_page 1 0 4 4 ?ops
      leaf_10_20_30 25 250]
  from inst h2 h3 have "\<forall>q \<in> set (observed CompareKeys_int ?p0 ?ops).
      strictly_ascending CompareKeys_int (keys q) \<and> no_duplicate_keys CompareKeys_int (keys q)"
    by simp
  then have "strictly_ascending CompareKeys_int (keys (last (observed CompareKeys_int ?p0 ?ops))) \<and>
      no_duplicate_keys CompareKeys_int (keys (last (observed CompareKeys_int ?p0 ?ops)))"
    using m by (rule bspec)
  then have a: "strictly_ascending CompareKeys_int (keys (last (observed CompareKeys_int ?p0 ?ops)))"
    "no_duplicate_keys CompareKeys_int (keys (last (observed CompareKeys_int ?p0 ?ops)))"
    by simp_all
  from inst h4 have b: "strictly_ascending CompareKeys_int (keys (fst (Insert leaf_10_20_30 25 250 CompareKeys_int)))"
    by simp
  show ?thesis using h1 h2 h3 h4 e a b by simp
qed

theorem Insert_of_present_key_counterexample:
  "within_capacity CompareKeys_int (Init (- 1) zero_page 1 0 4 4) [OpInsert 10 100, OpInsert 10 101] \<and>
   strictly_ascending CompareKeys_int (keys (fst (Insert (Init (- 1) zero_page 1 0 4 4) 10 100 CompareKeys_int))) \<and>
   GetSize (fst (Insert (Init (- 1) zero_page 1 0 4 4) 10 100 CompareKeys_int)) <
     max_size' (fst (Insert (Init (- 1) zero_page 1 0 4 4) 10 100 CompareKeys_int)) \<and>
   observed CompareKeys_int (Init (- 1) zero_page 1 0 4 4) [OpInsert 10 100, OpInsert 10 101] ! 2 =
     fst (Insert (fst (Insert (Init (- 1) zero_page 1 0 4 4) 10 100 CompareKeys_int)) 10 101 CompareKeys_int) \<and>
   pairs (fst (Insert (fst (Insert (Init (- 1) zero_page 1 0 4 4) 10 100 CompareKeys_int)) 10 101 CompareKeys_int)) =
     [(10, 101), (10, 100)] \<and>
   \<not> strictly_ascending CompareKeys_int
     (keys (fst (Insert (fst (Insert (Init (- 1) zero_page 1 0 4 4) 10 100 CompareKeys_int)) 10 101 CompareKeys_int))) \<and>
   \<not> no_duplicate_keys CompareKeys_int
     (keys (fst (Insert (fst (Insert (Init (- 1) zero_page 1 0 4 4) 10 100 CompareKeys_int)) 10 101 CompareKeys_int)))"
proof -
  let ?p0 = "Init (- 1) zero_page 1 0 4 4 :: (int, int) leaf_page"
  have "within_capacity CompareKeys_int ?p0 [OpInsert 10 100, OpInsert 10 101]" by code_simp
  moreover have "strictly_ascending CompareKeys_int (keys (fst (Insert ?p0 10 100 CompareKeys_int)))"
    by code_simp
  moreover have "GetSize (fst (Insert ?p0 10 100 CompareKeys_int)) <
     max_size' (fst (Insert ?p0 10 100 CompareKeys_int))" by code_simp
  moreover have "observed CompareKeys_int ?p0 [OpInsert 10 100, OpInsert 10 101] ! 2 =
     fst (Insert (fst (Insert ?p0 10 100 CompareKeys_int)) 10 101 CompareKeys_int)"
    by (simp add: numeral_2_eq_2)
  moreover have "pairs (fst (Insert (fst (Insert ?p0 10 100 CompareKeys_int)) 10 101 CompareKeys_int)) =
     [(10, 101), (10, 100)]" by code_simp
  moreover have "\<not> strictly_ascending CompareKeys_int
     (keys (fst (Insert (fst (Insert ?p0 10 100 CompareKeys_int)) 10 101 CompareKeys_int)))"
    by code_simp
  moreover have "\<not> no_duplicate_keys CompareKeys_int
     (keys (fst (Insert (fst (Insert ?p0 10 100 CompareKeys_int)) 10 101 CompareKeys_int)))"
    by code_simp
  ultimately show ?thesis by simp
qed

subsection \<open>MoveHalfTo\<close>

lemma CopyNFrom_eq:
  "CopyNFrom p src n =
     p\<lparr>data' := (\<lambda>a. if size' p \<le> a \<and> a < size' p + n then src (a - size' p) else data' p a),
        size' := size' p + n\<rparr>"
  by (simp add: CopyNFrom_def Let_def IncreaseSize_def GetSize_def)

lemma CopyNFrom_frame:
  "CopyNFrom p src n =
     p\<lparr>data' := data' (CopyNFrom p src n), size' := size' (CopyNFrom p src n)\<rparr>"
  by (simp add: CopyNFrom_eq)

lemma MoveHalfTo_eq:
  "MoveHalfTo this recipient =
     (this\<lparr>size' := size' this - size' this sdiv 2\<rparr>,
      recipient\<lparr>data' := (\<lambda>a. if size' recipient \<le> a \<and> a < size' recipient + size' this sdiv 2
                               then data' this (size' this - size' this sdiv 2 + (a - size' recipient))
                               else data' recipient a),
                size' := size' recipient + size' this sdiv 2\<rparr>)"
  by (simp add: MoveHalfTo_def Let_def CopyNFrom_eq PairPtrAt_def SetSize_def GetSize_def)

lemma MoveHalfTo_into_empty:
  assumes "0 \<le> GetSize this" "GetSize recipient = 0"
  shows "pairs (fst (MoveHalfTo this recipient)) =
           take (nat (GetSize this - GetSize this div 2)) (pairs this)"
    and "pairs (snd (MoveHalfTo this recipient)) =
           drop (nat (GetSize this - GetSize this div 2)) (pairs this)"
    and "GetSize (fst (MoveHalfTo this recipient)) = GetSize this - GetSize this div 2"
    and "GetSize (snd (MoveHalfTo this recipient)) = GetSize this div 2"
proof -
  let ?n = "size' this"
  let ?mc = "size' this div 2"
  have n: "0 \<le> ?n" using assms(1) by (simp add: GetSize_def)
  have sd: "?n sdiv 2 = ?mc" using n by (rule sdiv_2_nonneg)
  have mc: "0 \<le> ?mc" "?mc \<le> ?n" "0 \<le> ?n - ?mc"
    using n by simp_all
  have r0: "size' recipient = 0" "pairs recipient = []"
    using assms(2) by (simp_all add: GetSize_def pairs_def)
  have left: "fst (MoveHalfTo this recipient) = this\<lparr>size' := ?n - ?mc\<rparr>"
    unfolding MoveHalfTo_eq sd by simp
  have right: "snd (MoveHalfTo this recipient) =
      recipient\<lparr>data' := (\<lambda>a. if size' recipient \<le> a \<and> a < size' recipient + ?mc
                         then data' this (?n - ?mc + (a - size' recipient)) else data' recipient a),
           size' := size' recipient + ?mc\<rparr>"
    unfolding MoveHalfTo_eq sd by simp
  have "pairs (fst (MoveHalfTo this recipient)) = take (nat (?n - ?mc)) (pairs this)"
    unfolding left using n by (intro pairs_truncate) simp
  then show "pairs (fst (MoveHalfTo this recipient)) =
           take (nat (GetSize this - GetSize this div 2)) (pairs this)"
    by (simp add: GetSize_def)
  have "pairs (snd (MoveHalfTo this recipient)) =
        pairs recipient @ take (nat ?mc) (drop (nat (?n - ?mc)) (pairs this))"
    unfolding right using mc(1,3) r0(1) by (intro pairs_appended) simp_all
  also have "\<dots> = drop (nat (?n - ?mc)) (pairs this)"
    using mc n by (simp add: r0(2) GetSize_def)
  finally show "pairs (snd (MoveHalfTo this recipient)) =
           drop (nat (GetSize this - GetSize this div 2)) (pairs this)"
    by (simp add: GetSize_def)
  show "GetSize (fst (MoveHalfTo this recipient)) = GetSize this - GetSize this div 2"
    by (simp add: left GetSize_def)
  show "GetSize (snd (MoveHalfTo this recipient)) = GetSize this div 2"
    by (simp add: right GetSize_def r0(1))
qed

text \<open>
  C6. For a page of size \<open>n \<ge> 0\<close> with ascending keys and a recipient freshly initialised
  with the same \<^verbatim>\<open>key_size\<close>, \<^verbatim>\<open>MoveHalfTo\<close> appends the last \<open>n div 2\<close> pairs to the recipient,
  which then holds exactly that tail, and leaves the page with its first \<open>n - n div 2\<close> pairs,
  that is \<open>(n + 1) div 2\<close> of them, the middle one included when \<open>n\<close> is odd. The two sizes
  add up to \<open>n\<close>, no key of the left page is above a key of the right page, and the pairs of
  the left page followed by those of the right page are the pairs before the call.
\<close>

theorem MoveHalfTo_splits_at_the_upper_half:
  assumes "0 \<le> GetSize this" and "ascending KM (keys this)"
  shows "pairs (snd (MoveHalfTo this (Init INVALID_PAGE_ID raw page_id parent_id (GetKeySize this) max_size))) =
           drop (nat (GetSize this - GetSize this div 2)) (pairs this) \<and>
         pairs (fst (MoveHalfTo this (Init INVALID_PAGE_ID raw page_id parent_id (GetKeySize this) max_size))) =
           take (nat (GetSize this - GetSize this div 2)) (pairs this) \<and>
         GetSize (snd (MoveHalfTo this (Init INVALID_PAGE_ID raw page_id parent_id (GetKeySize this) max_size))) =
           GetSize this div 2 \<and>
         GetSize (fst (MoveHalfTo this (Init INVALID_PAGE_ID raw page_id parent_id (GetKeySize this) max_size))) =
           (GetSize this + 1) div 2 \<and>
         GetSize (fst (MoveHalfTo this (Init INVALID_PAGE_ID raw page_id parent_id (GetKeySize this) max_size))) +
         GetSize (snd (MoveHalfTo this (Init INVALID_PAGE_ID raw page_id parent_id (GetKeySize this) max_size))) =
           GetSize this \<and>
         (\<forall>a \<in> set (keys (fst (MoveHalfTo this (Init INVALID_PAGE_ID raw page_id parent_id (GetKeySize this) max_size)))).
          \<forall>b \<in> set (keys (snd (MoveHalfTo this (Init INVALID_PAGE_ID raw page_id parent_id (GetKeySize this) max_size)))).
            KM a b \<le> 0) \<and>
         pairs (fst (MoveHalfTo this (Init INVALID_PAGE_ID raw page_id parent_id (GetKeySize this) max_size))) @
         pairs (snd (MoveHalfTo this (Init INVALID_PAGE_ID raw page_id parent_id (GetKeySize this) max_size))) =
           pairs this"
proof -
  let ?r0 = "Init INVALID_PAGE_ID raw page_id parent_id (GetKeySize this) max_size"
  have zr: "GetSize ?r0 = 0" by (rule Init_empty)
  note m = MoveHalfTo_into_empty [OF assms(1) zr]
  have half: "GetSize this - GetSize this div 2 = (GetSize this + 1) div 2" by simp
  have cross: "\<forall>a \<in> set (keys (fst (MoveHalfTo this ?r0))).
               \<forall>b \<in> set (keys (snd (MoveHalfTo this ?r0))). KM a b \<le> 0"
    using sorted_wrt_take_drop_cross [of "\<lambda>a b. KM a b \<le> 0" "keys this"
        "nat (GetSize this - GetSize this div 2)"] assms(2)
    by (simp add: keys_def m(1,2) take_map drop_map ascending_def)
  show ?thesis
    using m cross half by simp
qed

theorem MoveHalfTo_splits_at_the_upper_half_witness:
  "0 \<le> GetSize leaf_10_20_30 \<and> ascending CompareKeys_int (keys leaf_10_20_30) \<and>
   pairs leaf_10_20_30 = [(10, 100), (20, 200), (30, 300)] \<and>
   pairs (snd (MoveHalfTo leaf_10_20_30 (Init (- 1) zero_page 2 0 (GetKeySize leaf_10_20_30) 4))) =
     [(30, 300)] \<and>
   pairs (fst (MoveHalfTo leaf_10_20_30 (Init (- 1) zero_page 2 0 (GetKeySize leaf_10_20_30) 4))) =
     [(10, 100), (20, 200)] \<and>
   GetSize (snd (MoveHalfTo leaf_10_20_30 (Init (- 1) zero_page 2 0 (GetKeySize leaf_10_20_30) 4))) = 1 \<and>
   GetSize (fst (MoveHalfTo leaf_10_20_30 (Init (- 1) zero_page 2 0 (GetKeySize leaf_10_20_30) 4))) = 2"
proof -
  have h1: "0 \<le> GetSize leaf_10_20_30" by code_simp
  have h2: "ascending CompareKeys_int (keys leaf_10_20_30)" by code_simp
  have e: "pairs leaf_10_20_30 = [(10, 100), (20, 200), (30, 300)]" "GetSize leaf_10_20_30 = 3"
    by code_simp+
  have d: "(3::int) - 3 div 2 = 2" "(3::int) div 2 = 1" "((3::int) + 1) div 2 = 2" by simp_all
  note inst = MoveHalfTo_splits_at_the_upper_half [OF h1 h2, of "- 1" zero_page 2 0 4]
  show ?thesis
    using inst h1 h2 unfolding e d by simp
qed

text \<open>
  C10. For a page and a recipient whose sizes are not negative, the recipient having room
  for the pairs that move (its size plus half the size of the page is within its
  \<open>max_size\<close>), \<^verbatim>\<open>MoveHalfTo\<close> changes nothing but the size of the page it is called on, and
  nothing but the size and the pair region of the recipient: \<^verbatim>\<open>next_page_id\<close>, \<^verbatim>\<open>page_id\<close>,
  \<^verbatim>\<open>parent_page_id\<close>, \<^verbatim>\<open>key_size\<close> and \<^verbatim>\<open>max_size\<close> of both pages are as before the call. A
  recipient that comes from \<^verbatim>\<open>Init\<close> still has the \<^verbatim>\<open>INVALID_PAGE_ID\<close> that \<^verbatim>\<open>Init\<close> wrote as
  its \<^verbatim>\<open>next_page_id\<close>, and the page that was split still names its old successor.
\<close>

theorem MoveHalfTo_leaves_the_links_alone:
  assumes "0 \<le> GetSize this" and "0 \<le> GetSize recipient"
    and "GetSize recipient + GetSize this div 2 \<le> max_size' recipient"
  shows "fst (MoveHalfTo this recipient) = this\<lparr>size' := size' (fst (MoveHalfTo this recipient))\<rparr> \<and>
   snd (MoveHalfTo this recipient) =
     recipient\<lparr>data' := data' (snd (MoveHalfTo this recipient)),
               size' := size' (snd (MoveHalfTo this recipient))\<rparr> \<and>
   next_page_id' (fst (MoveHalfTo this recipient)) = next_page_id' this \<and>
   page_id' (fst (MoveHalfTo this recipient)) = page_id' this \<and>
   parent_page_id' (fst (MoveHalfTo this recipient)) = parent_page_id' this \<and>
   key_size' (fst (MoveHalfTo this recipient)) = key_size' this \<and>
   max_size' (fst (MoveHalfTo this recipient)) = max_size' this \<and>
   next_page_id' (snd (MoveHalfTo this recipient)) = next_page_id' recipient \<and>
   page_id' (snd (MoveHalfTo this recipient)) = page_id' recipient \<and>
   parent_page_id' (snd (MoveHalfTo this recipient)) = parent_page_id' recipient \<and>
   key_size' (snd (MoveHalfTo this recipient)) = key_size' recipient \<and>
   max_size' (snd (MoveHalfTo this recipient)) = max_size' recipient \<and>
   (GetSize this div 2 \<le> max_size \<longrightarrow>
      GetNextPageId (snd (MoveHalfTo this (Init INVALID_PAGE_ID raw page_id parent_id key_size max_size))) =
        INVALID_PAGE_ID)"
proof -
  let ?mc = "GetSize this sdiv 2"
  have left: "fst (MoveHalfTo this recipient) = SetSize this (GetSize this - ?mc)"
    by (simp add: MoveHalfTo_def Let_def)
  have right: "\<And>r. snd (MoveHalfTo this r) = CopyNFrom r (PairPtrAt this (GetSize this - ?mc)) ?mc"
    by (simp add: MoveHalfTo_def Let_def)
  have l: "fst (MoveHalfTo this recipient) = this\<lparr>size' := size' (fst (MoveHalfTo this recipient))\<rparr>"
    unfolding left by (simp add: SetSize_def)
  have r: "\<And>r. snd (MoveHalfTo this r) =
      r\<lparr>data' := data' (snd (MoveHalfTo this r)), size' := size' (snd (MoveHalfTo this r))\<rparr>"
    unfolding right by (rule CopyNFrom_frame)
  have fields_l: "next_page_id' (fst (MoveHalfTo this recipient)) = next_page_id' this"
    "page_id' (fst (MoveHalfTo this recipient)) = page_id' this"
    "parent_page_id' (fst (MoveHalfTo this recipient)) = parent_page_id' this"
    "key_size' (fst (MoveHalfTo this recipient)) = key_size' this"
    "max_size' (fst (MoveHalfTo this recipient)) = max_size' this"
    by (subst l, simp)+
  have fields_r: "\<And>r. next_page_id' (snd (MoveHalfTo this r)) = next_page_id' r"
    "page_id' (snd (MoveHalfTo this recipient)) = page_id' recipient"
    "parent_page_id' (snd (MoveHalfTo this recipient)) = parent_page_id' recipient"
    "key_size' (snd (MoveHalfTo this recipient)) = key_size' recipient"
    "max_size' (snd (MoveHalfTo this recipient)) = max_size' recipient"
    by (subst r, simp)+
  have fresh: "next_page_id' (Init INVALID_PAGE_ID raw page_id parent_id key_size max_size) =
      INVALID_PAGE_ID"
    by (simp add: Init_eq)
  show ?thesis
    using l r [of recipient] fields_l fields_r fresh by (simp add: GetNextPageId_def)
qed

theorem MoveHalfTo_leaves_the_links_alone_witness:
  "0 \<le> GetSize leaf_10_20_30_40 \<and> 0 \<le> GetSize (fresh_leaf 2) \<and>
   GetSize (fresh_leaf 2) + GetSize leaf_10_20_30_40 div 2 \<le> max_size' (fresh_leaf 2) \<and>
   GetSize leaf_10_20_30_40 div 2 \<le> 4 \<and>
   next_page_id' (fst (MoveHalfTo leaf_10_20_30_40 (fresh_leaf 2))) = - 1 \<and>
   page_id' (fst (MoveHalfTo leaf_10_20_30_40 (fresh_leaf 2))) = 1 \<and>
   parent_page_id' (fst (MoveHalfTo leaf_10_20_30_40 (fresh_leaf 2))) = 0 \<and>
   key_size' (fst (MoveHalfTo leaf_10_20_30_40 (fresh_leaf 2))) = 4 \<and>
   max_size' (fst (MoveHalfTo leaf_10_20_30_40 (fresh_leaf 2))) = 4 \<and>
   next_page_id' (snd (MoveHalfTo leaf_10_20_30_40 (fresh_leaf 2))) = - 1 \<and>
   page_id' (snd (MoveHalfTo leaf_10_20_30_40 (fresh_leaf 2))) = 2 \<and>
   parent_page_id' (snd (MoveHalfTo leaf_10_20_30_40 (fresh_leaf 2))) = 0 \<and>
   key_size' (snd (MoveHalfTo leaf_10_20_30_40 (fresh_leaf 2))) = 4 \<and>
   max_size' (snd (MoveHalfTo leaf_10_20_30_40 (fresh_leaf 2))) = 4 \<and>
   GetNextPageId (snd (MoveHalfTo leaf_10_20_30_40 (Init (- 1) zero_page 2 0 4 4))) = - 1"
proof -
  have h1: "0 \<le> GetSize leaf_10_20_30_40" by code_simp
  have h2: "0 \<le> GetSize (fresh_leaf 2)" by code_simp
  have h3: "GetSize (fresh_leaf 2) + GetSize leaf_10_20_30_40 div 2 \<le> max_size' (fresh_leaf 2)"
    by code_simp
  have h4: "GetSize leaf_10_20_30_40 div 2 \<le> 4" by code_simp
  have e: "next_page_id' leaf_10_20_30_40 = - 1" "page_id' leaf_10_20_30_40 = 1"
    "parent_page_id' leaf_10_20_30_40 = 0" "key_size' leaf_10_20_30_40 = 4"
    "max_size' leaf_10_20_30_40 = 4" "next_page_id' (fresh_leaf 2) = - 1"
    "page_id' (fresh_leaf 2) = 2" "parent_page_id' (fresh_leaf 2) = 0"
    "key_size' (fresh_leaf 2) = 4" "max_size' (fresh_leaf 2) = 4"
    by code_simp+
  note inst = MoveHalfTo_leaves_the_links_alone [OF h1 h2 h3, of 4 "- 1" zero_page 2 0 4]
  from inst h4 have f: "GetNextPageId (snd (MoveHalfTo leaf_10_20_30_40 (Init (- 1) zero_page 2 0 4 4))) = - 1"
    by simp
  from inst have g:
    "next_page_id' (fst (MoveHalfTo leaf_10_20_30_40 (fresh_leaf 2))) = next_page_id' leaf_10_20_30_40"
    "page_id' (fst (MoveHalfTo leaf_10_20_30_40 (fresh_leaf 2))) = page_id' leaf_10_20_30_40"
    "parent_page_id' (fst (MoveHalfTo leaf_10_20_30_40 (fresh_leaf 2))) = parent_page_id' leaf_10_20_30_40"
    "key_size' (fst (MoveHalfTo leaf_10_20_30_40 (fresh_leaf 2))) = key_size' leaf_10_20_30_40"
    "max_size' (fst (MoveHalfTo leaf_10_20_30_40 (fresh_leaf 2))) = max_size' leaf_10_20_30_40"
    "next_page_id' (snd (MoveHalfTo leaf_10_20_30_40 (fresh_leaf 2))) = next_page_id' (fresh_leaf 2)"
    "page_id' (snd (MoveHalfTo leaf_10_20_30_40 (fresh_leaf 2))) = page_id' (fresh_leaf 2)"
    "parent_page_id' (snd (MoveHalfTo leaf_10_20_30_40 (fresh_leaf 2))) = parent_page_id' (fresh_leaf 2)"
    "key_size' (snd (MoveHalfTo leaf_10_20_30_40 (fresh_leaf 2))) = key_size' (fresh_leaf 2)"
    "max_size' (snd (MoveHalfTo leaf_10_20_30_40 (fresh_leaf 2))) = max_size' (fresh_leaf 2)"
    by simp_all
  show ?thesis
    using h1 h2 h3 h4 f g unfolding e by simp
qed

subsection \<open>MoveAllTo\<close>

lemma MoveAllTo_eq:
  "MoveAllTo this recipient =
     (this\<lparr>size' := 0\<rparr>,
      recipient\<lparr>data' := (\<lambda>a. if size' recipient \<le> a \<and> a < size' recipient + size' this
                               then data' this (a - size' recipient)
                               else data' recipient a),
                size' := size' recipient + size' this,
                next_page_id' := next_page_id' this\<rparr>)"
  by (simp add: MoveAllTo_def Let_def CopyNFrom_eq PairPtrAt_def SetSize_def GetSize_def
      SetNextPageId_def GetNextPageId_def)

text \<open>
  C7. For two strictly ascending pages of one index (same \<^verbatim>\<open>key_size\<close>), the recipient being
  the left sibling (each of its keys below each key of this page) and the two sizes
  together within \<open>max_size\<close>, \<^verbatim>\<open>MoveAllTo\<close> leaves the recipient with its own pairs followed
  by the pairs of this page, in their order, gives it the \<^verbatim>\<open>next_page_id\<close> that this page had
  before the call, and sets the size of this page to 0; the size of the recipient is the sum
  of the two sizes before the call, still within \<open>max_size\<close>, and its keys are strictly
  ascending.
\<close>

theorem MoveAllTo_appends_to_the_left_sibling:
  assumes "0 \<le> GetSize this" and "0 \<le> GetSize recipient"
    and "strictly_ascending KM (keys this)" and "strictly_ascending KM (keys recipient)"
    and "\<forall>a \<in> set (keys recipient). \<forall>b \<in> set (keys this). KM a b < 0"
    and "GetSize recipient + GetSize this \<le> max_size' recipient"
    and "GetKeySize recipient = GetKeySize this"
  shows "pairs (snd (MoveAllTo this recipient)) = pairs recipient @ pairs this \<and>
         GetNextPageId (snd (MoveAllTo this recipient)) = GetNextPageId this \<and>
         GetSize (fst (MoveAllTo this recipient)) = 0 \<and>
         pairs (fst (MoveAllTo this recipient)) = [] \<and>
         GetSize (snd (MoveAllTo this recipient)) = GetSize recipient + GetSize this \<and>
         GetSize (snd (MoveAllTo this recipient)) \<le> max_size' (snd (MoveAllTo this recipient)) \<and>
         strictly_ascending KM (keys (snd (MoveAllTo this recipient)))"
proof -
  have sz: "0 \<le> size' this" "0 \<le> size' recipient"
    using assms(1,2) by (simp_all add: GetSize_def)
  have "pairs (recipient\<lparr>data' := (\<lambda>a. if size' recipient \<le> a \<and> a < size' recipient + size' this
                               then data' this (a - size' recipient)
                               else data' recipient a),
                size' := size' recipient + size' this\<rparr>) =
        pairs recipient @ take (nat (size' this)) (drop (nat 0) (pairs this))"
    using pairs_appended [of recipient "size' this" 0 this, unfolded add_0] sz by simp
  then have pr: "pairs (snd (MoveAllTo this recipient)) = pairs recipient @ pairs this"
    by (simp add: MoveAllTo_eq GetSize_def)
  have ks: "keys (snd (MoveAllTo this recipient)) = keys recipient @ keys this"
    by (simp add: keys_def pr)
  have "strictly_ascending KM (keys (snd (MoveAllTo this recipient)))"
    unfolding ks strictly_ascending_def sorted_wrt_append
    using assms(3,4,5) by (simp add: strictly_ascending_def)
  moreover have "pairs (fst (MoveAllTo this recipient)) = []"
    by (simp add: MoveAllTo_eq pairs_alt)
  ultimately show ?thesis
    using pr assms(6) by (simp add: MoveAllTo_eq GetSize_def GetNextPageId_def)
qed

theorem MoveAllTo_appends_to_the_left_sibling_witness:
  "0 \<le> GetSize leaf_30_40 \<and> 0 \<le> GetSize leaf_10_20 \<and>
   strictly_ascending CompareKeys_int (keys leaf_30_40) \<and>
   strictly_ascending CompareKeys_int (keys leaf_10_20) \<and>
   keys leaf_10_20 = [10, 20] \<and> keys leaf_30_40 = [30, 40] \<and>
   GetSize leaf_10_20 + GetSize leaf_30_40 \<le> max_size' leaf_10_20 \<and>
   GetKeySize leaf_10_20 = GetKeySize leaf_30_40 \<and>
   pairs (snd (MoveAllTo leaf_30_40 leaf_10_20)) = [(10, 100), (20, 200), (30, 300), (40, 400)] \<and>
   GetNextPageId (snd (MoveAllTo leaf_30_40 leaf_10_20)) = 7 \<and>
   GetSize (fst (MoveAllTo leaf_30_40 leaf_10_20)) = 0 \<and>
   GetSize (snd (MoveAllTo leaf_30_40 leaf_10_20)) = 4 \<and>
   strictly_ascending CompareKeys_int (keys (snd (MoveAllTo leaf_30_40 leaf_10_20)))"
proof -
  have h1: "0 \<le> GetSize leaf_30_40" by code_simp
  have h2: "0 \<le> GetSize leaf_10_20" by code_simp
  have h3: "strictly_ascending CompareKeys_int (keys leaf_30_40)" by code_simp
  have h4: "strictly_ascending CompareKeys_int (keys leaf_10_20)" by code_simp
  have k: "keys leaf_10_20 = [10, 20]" "keys leaf_30_40 = [30, 40]" by code_simp+
  have h5: "\<forall>a \<in> set (keys leaf_10_20). \<forall>b \<in> set (keys leaf_30_40). CompareKeys_int a b < 0"
    unfolding k by (simp add: CompareKeys_int_def)
  have h6: "GetSize leaf_10_20 + GetSize leaf_30_40 \<le> max_size' leaf_10_20" by code_simp
  have h7: "GetKeySize leaf_10_20 = GetKeySize leaf_30_40" by code_simp
  have e: "pairs leaf_10_20 = [(10, 100), (20, 200)]" "pairs leaf_30_40 = [(30, 300), (40, 400)]"
    "GetNextPageId leaf_30_40 = 7" "GetSize leaf_10_20 = 2" "GetSize leaf_30_40 = 2"
    by code_simp+
  note inst = MoveAllTo_appends_to_the_left_sibling [OF h1 h2 h3 h4 h5 h6 h7]
  show ?thesis
    using inst h1 h2 h3 h4 h6 h7 k unfolding e by simp
qed

subsection \<open>MoveFirstToEndOf and MoveLastToFrontOf\<close>

lemma CopyLastFrom_eq:
  "CopyLastFrom p key value =
     p\<lparr>data' := (data' p)(size' p := (key, value)), size' := size' p + 1\<rparr>"
  by (simp add: CopyLastFrom_def Let_def SetKeyAt_def SetValueAt_def IncreaseSize_def GetSize_def)

lemma MoveFirstToEndOf_eq:
  "MoveFirstToEndOf this recipient =
     (this\<lparr>data' := (\<lambda>a. if 0 \<le> a \<and> a < size' this - 1 then data' this (a + 1) else data' this a),
           size' := size' this - 1\<rparr>,
      recipient\<lparr>data' := (data' recipient)(size' recipient := data' this 0),
                size' := size' recipient + 1\<rparr>)"
  unfolding MoveFirstToEndOf_def Let_def CopyLastFrom_eq ShiftLeft_loop_eq GetSize_def
    IncreaseSize_def KeyAt_def ValueAt_def
  by simp

lemma CopyFirstFrom_eq:
  "CopyFirstFrom p key value =
     p\<lparr>data' := (\<lambda>a. if 0 < a \<and> a \<le> size' p then data' p (a - 1) else data' p a)
                 (0 := (key, value)),
        size' := size' p + 1\<rparr>"
  unfolding CopyFirstFrom_def Let_def ShiftRight_loop_eq GetSize_def IncreaseSize_def
    SetKeyAt_def SetValueAt_def
  by simp

lemma MoveLastToFrontOf_eq:
  "MoveLastToFrontOf this recipient =
     (this\<lparr>size' := size' this - 1\<rparr>,
      recipient\<lparr>data' := (\<lambda>a. if 0 < a \<and> a \<le> size' recipient then data' recipient (a - 1)
                               else data' recipient a)
                       (0 := data' this (size' this - 1)),
                size' := size' recipient + 1\<rparr>)"
  unfolding MoveLastToFrontOf_def Let_def CopyFirstFrom_eq GetSize_def IncreaseSize_def
    KeyAt_def ValueAt_def
  by simp

lemma MoveFirstToEndOf_pairs:
  assumes "0 < GetSize this" "0 \<le> GetSize recipient"
  shows "pairs (fst (MoveFirstToEndOf this recipient)) = tl (pairs this)"
    and "pairs (snd (MoveFirstToEndOf this recipient)) = pairs recipient @ [hd (pairs this)]"
proof -
  have "pairs (this\<lparr>data' := (\<lambda>a. if 0 \<le> a \<and> a < size' this - 1 then data' this (a + 1) else data' this a),
                    size' := size' this - 1\<rparr>) =
        take (nat 0) (pairs this) @ drop (Suc (nat 0)) (pairs this)"
    using assms(1) by (intro pairs_remove_slot) (simp_all add: GetSize_def)
  then show "pairs (fst (MoveFirstToEndOf this recipient)) = tl (pairs this)"
    by (simp add: MoveFirstToEndOf_eq drop_Suc)
  have "pairs (recipient\<lparr>data' := (data' recipient)(size' recipient := data' this 0),
                         size' := size' recipient + 1\<rparr>) = pairs recipient @ [data' this 0]"
    using assms(2) by (intro pairs_push_back) (simp add: GetSize_def)
  then show "pairs (snd (MoveFirstToEndOf this recipient)) = pairs recipient @ [hd (pairs this)]"
    by (simp add: MoveFirstToEndOf_eq pairs_first_live [OF assms(1)])
qed

lemma MoveLastToFrontOf_pairs:
  assumes "0 < GetSize this" "0 \<le> GetSize recipient"
  shows "pairs (fst (MoveLastToFrontOf this recipient)) = butlast (pairs this)"
    and "pairs (snd (MoveLastToFrontOf this recipient)) = last (pairs this) # pairs recipient"
proof -
  have "pairs (this\<lparr>size' := size' this - 1\<rparr>) = take (nat (size' this - 1)) (pairs this)"
    by (intro pairs_truncate) simp
  moreover have "nat (size' this - 1) = length (pairs this) - 1"
    using assms(1) by (simp add: GetSize_def)
  ultimately show "pairs (fst (MoveLastToFrontOf this recipient)) = butlast (pairs this)"
    by (simp add: MoveLastToFrontOf_eq butlast_conv_take del: length_pairs)
  have "pairs (recipient\<lparr>data' := (\<lambda>a. if 0 < a \<and> a \<le> size' recipient then data' recipient (a - 1)
                               else data' recipient a)
                       (0 := data' this (size' this - 1)),
                size' := size' recipient + 1\<rparr>) = data' this (size' this - 1) # pairs recipient"
    using assms(2) by (intro pairs_push_front) (simp add: GetSize_def)
  then show "pairs (snd (MoveLastToFrontOf this recipient)) = last (pairs this) # pairs recipient"
    by (simp add: MoveLastToFrontOf_eq pairs_last_live [OF assms(1)])
qed

text \<open>
  C8. Let this page be strictly ascending and not empty, \<open>l\<close> its left sibling and \<open>r\<close> its
  right sibling, both strictly ascending, of the same \<^verbatim>\<open>key_size\<close> and below \<open>max_size\<close>.
  \<^verbatim>\<open>MoveFirstToEndOf\<close> takes the first pair of this page, the one with the lowest key, and
  makes it the last pair of \<open>l\<close>; \<^verbatim>\<open>MoveLastToFrontOf\<close> takes the last pair of this page, the
  one with the highest key, and makes it the first pair of \<open>r\<close>, before the pairs \<open>r\<close> had.
  Each call lowers the size of this page by 1 and raises the size of the recipient by 1, so
  the two pages hold as many pairs as before; both pages are strictly ascending after the
  call; the pair that moved is the pair that stood at that end of this page.
\<close>

theorem redistribution_moves_the_boundary_pair:
  assumes "0 < GetSize this" and "strictly_ascending KM (keys this)"
    and "0 \<le> GetSize l" and "strictly_ascending KM (keys l)" and "GetSize l < max_size' l"
    and "GetKeySize l = GetKeySize this"
    and "\<forall>a \<in> set (keys l). \<forall>b \<in> set (keys this). KM a b < 0"
    and "0 \<le> GetSize r" and "strictly_ascending KM (keys r)" and "GetSize r < max_size' r"
    and "GetKeySize r = GetKeySize this"
    and "\<forall>a \<in> set (keys this). \<forall>b \<in> set (keys r). KM a b < 0"
  shows "pairs (snd (MoveFirstToEndOf this l)) = pairs l @ [hd (pairs this)] \<and>
         pairs (fst (MoveFirstToEndOf this l)) = tl (pairs this) \<and>
         GetSize (fst (MoveFirstToEndOf this l)) = GetSize this - 1 \<and>
         GetSize (snd (MoveFirstToEndOf this l)) = GetSize l + 1 \<and>
         strictly_ascending KM (keys (fst (MoveFirstToEndOf this l))) \<and>
         strictly_ascending KM (keys (snd (MoveFirstToEndOf this l))) \<and>
         pairs (snd (MoveLastToFrontOf this r)) = last (pairs this) # pairs r \<and>
         pairs (fst (MoveLastToFrontOf this r)) = butlast (pairs this) \<and>
         GetSize (fst (MoveLastToFrontOf this r)) = GetSize this - 1 \<and>
         GetSize (snd (MoveLastToFrontOf this r)) = GetSize r + 1 \<and>
         strictly_ascending KM (keys (fst (MoveLastToFrontOf this r))) \<and>
         strictly_ascending KM (keys (snd (MoveLastToFrontOf this r)))"
proof -
  note f = MoveFirstToEndOf_pairs [OF assms(1,3)]
  note b = MoveLastToFrontOf_pairs [OF assms(1,8)]
  have ne: "keys this \<noteq> []" "pairs this \<noteq> []"
    using keys_nonempty [OF assms(1)] by (simp_all add: keys_def)
  have hd_in: "hd (keys this) \<in> set (keys this)" and last_in: "last (keys this) \<in> set (keys this)"
    using ne(1) by simp_all
  have kf1: "keys (fst (MoveFirstToEndOf this l)) = tl (keys this)"
    by (simp add: keys_def f(1) map_tl)
  have kf2: "keys (snd (MoveFirstToEndOf this l)) = keys l @ [hd (keys this)]"
    using ne(2) by (simp add: keys_def f(2) hd_map)
  have kb1: "keys (fst (MoveLastToFrontOf this r)) = butlast (keys this)"
    by (simp add: keys_def b(1) map_butlast)
  have kb2: "keys (snd (MoveLastToFrontOf this r)) = last (keys this) # keys r"
    using ne(2) by (simp add: keys_def b(2) last_map)
  have "tl (keys this) = drop 1 (keys this)" by (simp add: drop_Suc)
  then have s1: "strictly_ascending KM (tl (keys this))"
    using assms(2) unfolding strictly_ascending_def by (simp add: sorted_wrt_drop)
  have s2: "strictly_ascending KM (keys l @ [hd (keys this)])"
    using assms(4,7) hd_in unfolding strictly_ascending_def sorted_wrt_append by simp
  have s3: "strictly_ascending KM (butlast (keys this))"
    using assms(2) unfolding strictly_ascending_def by (simp add: sorted_wrt_take butlast_conv_take)
  have s4: "strictly_ascending KM (last (keys this) # keys r)"
    using assms(9,12) last_in unfolding strictly_ascending_def by simp
  have sizes: "GetSize (fst (MoveFirstToEndOf this l)) = GetSize this - 1"
    "GetSize (snd (MoveFirstToEndOf this l)) = GetSize l + 1"
    "GetSize (fst (MoveLastToFrontOf this r)) = GetSize this - 1"
    "GetSize (snd (MoveLastToFrontOf this r)) = GetSize r + 1"
    by (simp_all add: MoveFirstToEndOf_eq MoveLastToFrontOf_eq GetSize_def)
  show ?thesis
    unfolding kf1 kf2 kb1 kb2 using f b s1 s2 s3 s4 sizes by simp
qed

theorem redistribution_moves_the_boundary_pair_witness:
  "0 < GetSize leaf_30_40 \<and> strictly_ascending CompareKeys_int (keys leaf_30_40) \<and>
   0 \<le> GetSize leaf_10_20 \<and> strictly_ascending CompareKeys_int (keys leaf_10_20) \<and>
   GetSize leaf_10_20 < max_size' leaf_10_20 \<and> GetKeySize leaf_10_20 = GetKeySize leaf_30_40 \<and>
   0 \<le> GetSize leaf_50 \<and> strictly_ascending CompareKeys_int (keys leaf_50) \<and>
   GetSize leaf_50 < max_size' leaf_50 \<and> GetKeySize leaf_50 = GetKeySize leaf_30_40 \<and>
   keys leaf_10_20 = [10, 20] \<and> keys leaf_30_40 = [30, 40] \<and> keys leaf_50 = [50] \<and>
   pairs (snd (MoveFirstToEndOf leaf_30_40 leaf_10_20)) = [(10, 100), (20, 200), (30, 300)] \<and>
   pairs (fst (MoveFirstToEndOf leaf_30_40 leaf_10_20)) = [(40, 400)] \<and>
   GetSize (fst (MoveFirstToEndOf leaf_30_40 leaf_10_20)) = 1 \<and>
   GetSize (snd (MoveFirstToEndOf leaf_30_40 leaf_10_20)) = 3 \<and>
   pairs (snd (MoveLastToFrontOf leaf_30_40 leaf_50)) = [(40, 400), (50, 500)] \<and>
   pairs (fst (MoveLastToFrontOf leaf_30_40 leaf_50)) = [(30, 300)] \<and>
   GetSize (fst (MoveLastToFrontOf leaf_30_40 leaf_50)) = 1 \<and>
   GetSize (snd (MoveLastToFrontOf leaf_30_40 leaf_50)) = 2"
proof -
  have h1: "0 < GetSize leaf_30_40" by code_simp
  have h2: "strictly_ascending CompareKeys_int (keys leaf_30_40)" by code_simp
  have h3: "0 \<le> GetSize leaf_10_20" by code_simp
  have h4: "strictly_ascending CompareKeys_int (keys leaf_10_20)" by code_simp
  have h5: "GetSize leaf_10_20 < max_size' leaf_10_20" by code_simp
  have h6: "GetKeySize leaf_10_20 = GetKeySize leaf_30_40" by code_simp
  have k: "keys leaf_10_20 = [10, 20]" "keys leaf_30_40 = [30, 40]" "keys leaf_50 = [50]"
    by code_simp+
  have h7: "\<forall>a \<in> set (keys leaf_10_20). \<forall>b \<in> set (keys leaf_30_40). CompareKeys_int a b < 0"
    unfolding k by (simp add: CompareKeys_int_def)
  have h8: "0 \<le> GetSize leaf_50" by code_simp
  have h9: "strictly_ascending CompareKeys_int (keys leaf_50)" by code_simp
  have h10: "GetSize leaf_50 < max_size' leaf_50" by code_simp
  have h11: "GetKeySize leaf_50 = GetKeySize leaf_30_40" by code_simp
  have h12: "\<forall>a \<in> set (keys leaf_30_40). \<forall>b \<in> set (keys leaf_50). CompareKeys_int a b < 0"
    unfolding k by (simp add: CompareKeys_int_def)
  have e: "pairs leaf_10_20 = [(10, 100), (20, 200)]" "pairs leaf_30_40 = [(30, 300), (40, 400)]"
    "pairs leaf_50 = [(50, 500)]" "GetSize leaf_10_20 = 2" "GetSize leaf_30_40 = 2"
    "GetSize leaf_50 = 1"
    by code_simp+
  note inst = redistribution_moves_the_boundary_pair [OF h1 h2 h3 h4 h5 h6 h7 h8 h9 h10 h11 h12]
  show ?thesis
    using inst h1 h2 h3 h4 h5 h6 h8 h9 h10 h11 k unfolding e by simp
qed

subsection \<open>The split scenario\<close>

text \<open>
  C9, as amended. Initialise a leaf with \<open>key_size = 4\<close> and \<open>max_size = 4\<close> and insert the
  keys 30, 10, 20 with any values: \<^verbatim>\<open>Lookup\<close> of 10, 20 and 30 succeeds with the value
  inserted for that key and \<^verbatim>\<open>KeyIndex\<close> of 25 is 2. Insert the key 40, which returns the
  size 4, and call \<^verbatim>\<open>MoveHalfTo\<close> with a freshly initialised right page: the left page holds
  the pairs of 10 and 20, the right page those of 30 and 40, and the \<^verbatim>\<open>next_page_id\<close> of the
  right page equals that of the original page. The \<^verbatim>\<open>next_page_id\<close> of the left page is what
  it was before the call, the \<^verbatim>\<open>INVALID_PAGE_ID\<close> written by \<^verbatim>\<open>Init\<close>; it names the right page
  after the caller has set it with \<^verbatim>\<open>SetNextPageId\<close>.
\<close>

theorem split_scenario:
  fixes raw raw2 :: "(int, 'v) leaf_page"
    and INVALID_PAGE_ID left_id parent_id right_id parent_id2 :: page_id_t
    and v10 v20 v30 v40 :: 'v
  defines "left0 \<equiv> Init INVALID_PAGE_ID raw left_id parent_id 4 4"
  defines "left3 \<equiv> fst (Insert (fst (Insert (fst (Insert left0 30 v30 CompareKeys_int))
                                   10 v10 CompareKeys_int))
                      20 v20 CompareKeys_int)"
  defines "left4 \<equiv> fst (Insert left3 40 v40 CompareKeys_int)"
  defines "right0 \<equiv> Init INVALID_PAGE_ID raw2 right_id parent_id2 4 4"
  shows "Lookup left3 10 v CompareKeys_int = (left3, True, v10) \<and>
         Lookup left3 20 v CompareKeys_int = (left3, True, v20) \<and>
         Lookup left3 30 v CompareKeys_int = (left3, True, v30) \<and>
         KeyIndex left3 25 CompareKeys_int = 2 \<and>
         snd (Insert left3 40 v40 CompareKeys_int) = 4 \<and>
         GetSize left4 = 4 \<and>
         pairs (fst (MoveHalfTo left4 right0)) = [(10, v10), (20, v20)] \<and>
         pairs (snd (MoveHalfTo left4 right0)) = [(30, v30), (40, v40)] \<and>
         GetNextPageId (snd (MoveHalfTo left4 right0)) = GetNextPageId left4 \<and>
         GetNextPageId (fst (MoveHalfTo left4 right0)) = INVALID_PAGE_ID \<and>
         page_id' (snd (MoveHalfTo left4 right0)) = right_id \<and>
         GetNextPageId (SetNextPageId (fst (MoveHalfTo left4 right0))
                          (page_id' (snd (MoveHalfTo left4 right0)))) = right_id"
proof -
  note ko = key_order_CompareKeys_int
  define p1 where "p1 = fst (Insert left0 30 v30 CompareKeys_int)"
  define p2 where "p2 = fst (Insert p1 10 v10 CompareKeys_int)"
  have left3: "left3 = fst (Insert p2 20 v20 CompareKeys_int)"
    by (simp add: left3_def p2_def p1_def)
  have z0: "GetSize left0 = 0" "pairs left0 = []" "keys left0 = []"
    unfolding left0_def by (rule Init_empty)+
  have q1: "pairs p1 = [(30, v30)]"
    unfolding p1_def using pairs_Insert_absent [OF ko, of left0 30 v30]
    by (simp add: z0 ascending_def)
  have z1: "GetSize p1 = 1" by (simp add: p1_def Insert_header z0)
  have q2: "pairs p2 = [(10, v10), (30, v30)]"
    unfolding p2_def using pairs_Insert_absent [OF ko, of p1 10 v10]
    by (simp add: z1 q1 keys_def ascending_def CompareKeys_int_def)
  have z2: "GetSize p2 = 2" by (simp add: p2_def Insert_header z1)
  have q3: "pairs left3 = [(10, v10), (20, v20), (30, v30)]"
    unfolding left3 using pairs_Insert_absent [OF ko, of p2 20 v20]
    by (simp add: z2 q2 keys_def ascending_def CompareKeys_int_def)
  have z3: "GetSize left3 = 3" "0 \<le> GetSize left3" by (simp_all add: left3 Insert_header z2)
  have k3: "keys left3 = [10, 20, 30]" by (simp add: keys_def q3)
  have s3: "strictly_ascending CompareKeys_int (keys left3)"
    by (simp add: k3 strictly_ascending_def CompareKeys_int_def)
  have l10: "Lookup left3 10 v CompareKeys_int = (left3, True, v10)"
    using Lookup_at [OF ko z3(2) s3, of 0 10 v] by (simp add: q3 CompareKeys_int_def)
  have l20: "Lookup left3 20 v CompareKeys_int = (left3, True, v20)"
    using Lookup_at [OF ko z3(2) s3, of 1 20 v] by (simp add: q3 CompareKeys_int_def)
  have l30: "Lookup left3 30 v CompareKeys_int = (left3, True, v30)"
    using Lookup_at [OF ko z3(2) s3, of 2 30 v] by (simp add: q3 CompareKeys_int_def)
  note part = KeyIndex_partition [OF ko z3(2) strictly_ascending_imp_ascending [OF s3], of 25]
  have ka: "KeyAt left3 1 = 20" "KeyAt left3 2 = 30"
    using keys_nth [of 1 left3] keys_nth [of 2 left3] by (simp_all add: z3 k3)
  have "\<not> 2 < KeyIndex left3 25 CompareKeys_int"
  proof
    assume "2 < KeyIndex left3 25 CompareKeys_int"
    with part have "0 < CompareKeys_int 25 (KeyAt left3 2)" by simp
    then show False by (simp add: ka CompareKeys_int_def)
  qed
  moreover have "\<not> KeyIndex left3 25 CompareKeys_int \<le> 1"
  proof
    assume "KeyIndex left3 25 CompareKeys_int \<le> 1"
    with part have "CompareKeys_int 25 (KeyAt left3 1) \<le> 0" by (simp add: z3)
    then show False by (simp add: ka CompareKeys_int_def)
  qed
  ultimately have ki: "KeyIndex left3 25 CompareKeys_int = 2" by simp
  have q4: "pairs left4 = [(10, v10), (20, v20), (30, v30), (40, v40)]"
    unfolding left4_def
    using pairs_Insert_absent [OF ko z3(2) strictly_ascending_imp_ascending [OF s3], of 40 v40]
    by (simp add: q3 CompareKeys_int_def)
  have z4: "GetSize left4 = 4" by (simp add: left4_def Insert_header z3)
  have r4: "snd (Insert left3 40 v40 CompareKeys_int) = 4" by (simp add: Insert_result z3)
  have zr: "GetSize right0 = 0" unfolding right0_def by (rule Init_empty)
  have h: "0 \<le> GetSize left4" by (simp add: z4)
  note m = MoveHalfTo_into_empty [OF h zr]
  have ml: "pairs (fst (MoveHalfTo left4 right0)) = [(10, v10), (20, v20)]"
    by (simp add: m(1) z4 q4)
  have mr: "pairs (snd (MoveHalfTo left4 right0)) = [(30, v30), (40, v40)]"
    by (simp add: m(2) z4 q4)
  have n4: "next_page_id' left4 = INVALID_PAGE_ID"
    by (simp add: left4_def left3_def Insert_header left0_def Init_eq)
  have nl: "GetNextPageId (fst (MoveHalfTo left4 right0)) = INVALID_PAGE_ID"
    by (simp add: MoveHalfTo_eq GetNextPageId_def n4)
  have nr: "GetNextPageId (snd (MoveHalfTo left4 right0)) = INVALID_PAGE_ID"
    by (simp add: MoveHalfTo_eq GetNextPageId_def right0_def Init_eq)
  have pr: "page_id' (snd (MoveHalfTo left4 right0)) = right_id"
    by (simp add: MoveHalfTo_eq right0_def Init_eq)
  show ?thesis
    using l10 l20 l30 ki r4 z4 ml mr nl nr pr n4
    by (simp add: GetNextPageId_def SetNextPageId_def)
qed

theorem split_scenario_counterexample:
  "GetKeySize leaf_10_20_30_40 = 4 \<and> max_size' leaf_10_20_30_40 = 4 \<and>
   keys leaf_10_20_30_40 = [10, 20, 30, 40] \<and>
   keys (fst (MoveHalfTo leaf_10_20_30_40 (fresh_leaf 2))) = [10, 20] \<and>
   keys (snd (MoveHalfTo leaf_10_20_30_40 (fresh_leaf 2))) = [30, 40] \<and>
   page_id' (snd (MoveHalfTo leaf_10_20_30_40 (fresh_leaf 2))) = 2 \<and>
   GetNextPageId (fst (MoveHalfTo leaf_10_20_30_40 (fresh_leaf 2))) = - 1 \<and>
   GetNextPageId (fst (MoveHalfTo leaf_10_20_30_40 (fresh_leaf 2))) \<noteq>
     page_id' (snd (MoveHalfTo leaf_10_20_30_40 (fresh_leaf 2)))"
  by code_simp

end
